theory Spec2Isabelle
  imports Main "HOL-Library.Word" "HOL-Library.Sublist"
begin

section \<open>brainbrain: the operation and block model\<close>

text \<open>
  The translator of \<^verbatim>\<open>brainbrain.c\<close> has two stages: \<^verbatim>\<open>parse\<close> builds a chain of
  heap-allocated blocks from the source text, \<^verbatim>\<open>emit_code\<close> walks the chain and prints
  one of three targets.

  An \<^verbatim>\<open>Op\<close> of the source is a tag with a union; the model merges them into a datatype.
  \<^verbatim>\<open>OpInc.value\<close> is a \<^verbatim>\<open>uint8_t\<close>, \<^verbatim>\<open>OpShift.index\<close> a \<^verbatim>\<open>uint16_t\<close>.
\<close>

datatype Op = OpInc "8 word" | OpShift "16 word" | OpRead | OpWrite

text \<open>The macro \<^verbatim>\<open>BF_MEMORY_SIZE\<close>: an \<^verbatim>\<open>int\<close> constant of the source.\<close>

definition BF_MEMORY_SIZE :: int where
  "BF_MEMORY_SIZE = 3000"

text \<open>
  Blocks live on the C heap and point at each other. The model keeps every allocated
  block in a list, in the order of allocation, so a \<^verbatim>\<open>Block*\<close> is the position of the block
  in that list (\<open>None\<close> for \<^verbatim>\<open>NULL\<close>). The growable array \<^verbatim>\<open>Ops\<close> is the list of its first
  \<^verbatim>\<open>count\<close> items; its capacity and the failure of \<^verbatim>\<open>calloc\<close>/\<^verbatim>\<open>realloc\<close> are not modelled
  (memory is taken to be sufficient).
\<close>

record Block =
  "next" :: "nat option"
  exit :: "nat option"
  ops :: "Op list"

definition empty_block :: Block where
  "empty_block = \<lparr>next = None, exit = None, ops = []\<rparr>"

text \<open>
  \<^verbatim>\<open>block_append_op\<close>: when the last stored operation has the tag of the new one and the
  tag is INC or SHIFT, the two are merged in place and a zero result shrinks the array
  by one; every other case stores the new operation at the end. The 16-bit sum is
  stored back into the \<^verbatim>\<open>uint16_t\<close> field (wrapping) before the remainder is taken.
\<close>

definition block_append_op :: "Block \<Rightarrow> Op \<Rightarrow> Block" where
  "block_append_op block op =
     (let items = ops block in
      if items \<noteq> [] then
        (case (last items, op) of
           (OpInc a, OpInc v) \<Rightarrow>
             (let s = a + v in
              if s = 0 then block\<lparr>ops := butlast items\<rparr>
              else block\<lparr>ops := butlast items @ [OpInc s]\<rparr>)
         | (OpShift a, OpShift v) \<Rightarrow>
             (let s = word_of_int (uint (a + v) mod BF_MEMORY_SIZE) in
              if s = 0 then block\<lparr>ops := butlast items\<rparr>
              else block\<lparr>ops := butlast items @ [OpShift s]\<rparr>)
         | _ \<Rightarrow> block\<lparr>ops := items @ [op]\<rparr>)
      else block\<lparr>ops := items @ [op]\<rparr>)"

section \<open>The builder\<close>

text \<open>
  \<^verbatim>\<open>crash_bad_bf\<close> prints one fixed message and exits with status 1; it is the only way
  \<^verbatim>\<open>parse\<close> rejects a source text, called from \<^verbatim>\<open>blocks_pop\<close> on an empty stack and at the
  end of the scan when the stack is not empty. \<^verbatim>\<open>ASSERT\<close> is \<^verbatim>\<open>assert\<close>, taken as enabled: a
  failed one aborts.
\<close>

datatype crash = BadBf | AssertionFailed

text \<open>
  The state of the scanning loop of \<^verbatim>\<open>parse\<close>. The stack \<^verbatim>\<open>unclosed\<close> is a list whose head
  is the top. The root block is the first allocation, position 0.
\<close>

record pstate =
  heap :: "Block list"
  cur :: nat
  unclosed :: "nat list"

definition parse_init :: pstate where
  "parse_init = \<lparr>heap = [empty_block], cur = 0, unclosed = []\<rparr>"

text \<open>The conditional expression that turns one of the six operation characters into an \<^verbatim>\<open>Op\<close>.\<close>

definition op_of_char :: "char \<Rightarrow> Op option" where
  "op_of_char c =
     (if c = CHR ''+'' then Some (OpInc 1)
      else if c = CHR ''-'' then Some (OpInc 255)
      else if c = CHR ''<'' then Some (OpShift (word_of_int (BF_MEMORY_SIZE - 1)))
      else if c = CHR ''>'' then Some (OpShift 1)
      else if c = CHR '','' then Some OpRead
      else if c = CHR ''.'' then Some OpWrite
      else None)"

text \<open>One turn of the \<^verbatim>\<open>switch\<close> in the loop of \<^verbatim>\<open>parse\<close>.\<close>

definition parse_char :: "char \<Rightarrow> pstate \<Rightarrow> crash + pstate" where
  "parse_char c st =
     (if c = CHR ''+'' \<or> c = CHR ''-'' \<or> c = CHR ''>'' \<or> c = CHR ''<''
         \<or> c = CHR ''.'' \<or> c = CHR '','' then
        (case op_of_char c of
           None \<Rightarrow> Inl AssertionFailed
         | Some tag \<Rightarrow>
             Inr (st\<lparr>heap := (heap st)[cur st := block_append_op (heap st ! cur st) tag]\<rparr>))
      else if c = CHR ''['' then
        (let n = length (heap st) in
         Inr (st\<lparr>heap := (heap st)[cur st := (heap st ! cur st)\<lparr>next := Some n\<rparr>] @ [empty_block],
                 cur := n,
                 unclosed := n # unclosed st\<rparr>))
      else if c = CHR '']'' then
        (case unclosed st of
           [] \<Rightarrow> Inl BadBf
         | backedge # rest \<Rightarrow>
             (let n = length (heap st) in
              Inr (st\<lparr>heap := (heap st)[backedge := (heap st ! backedge)\<lparr>exit := Some n\<rparr>] @ [empty_block],
                      cur := n,
                      unclosed := rest\<rparr>)))
      else Inr st)"

text \<open>
  The loop over the characters of the NUL-terminated string; \<open>src\<close> is the content of
  the string (the characters before the terminator).
\<close>

fun parse_loop :: "string \<Rightarrow> pstate \<Rightarrow> crash + pstate" where
  "parse_loop [] st = Inr st"
| "parse_loop (c # cs) st =
     (case parse_char c st of
        Inl e \<Rightarrow> Inl e
      | Inr st' \<Rightarrow> parse_loop cs st')"

text \<open>\<^verbatim>\<open>parse\<close> returns the root; the model returns the heap, whose position 0 is the root.\<close>

definition parse :: "string \<Rightarrow> crash + Block list" where
  "parse src =
     (case parse_loop src parse_init of
        Inl e \<Rightarrow> Inl e
      | Inr st \<Rightarrow> if unclosed st \<noteq> [] then Inl BadBf else Inr (heap st))"

section \<open>The output file\<close>

text \<open>
  \<^verbatim>\<open>emit_code\<close> writes through \<^verbatim>\<open>fputs\<close> and \<^verbatim>\<open>fprintf\<close> and gives up at the first call that
  reports an error. The model of the \<^verbatim>\<open>FILE\<close> keeps the text accepted so far, counts the
  write calls made on it, and carries the environment's answer to each call:
  \<open>accepts f n\<close> tells whether call number \<open>n\<close> succeeds. A failed call adds nothing to
  the text; calls after a failed one may succeed again, so that "nothing is written
  after a failure" is a property of the emitter and not of the file. \<^verbatim>\<open>fputs\<close> and
  \<^verbatim>\<open>fprintf\<close> with a constant text are the same call in the model.
\<close>

record out_file =
  written :: string
  calls :: nat
  accepts :: "nat \<Rightarrow> bool"

text \<open>
  What an emitting function hands back: \<open>Done\<close> is the return value 1, \<open>WriteFailed\<close>
  the return value 0, \<open>Aborted\<close> a failed \<^verbatim>\<open>ASSERT\<close>, \<open>BadPointer\<close> the dereference of
  \<^verbatim>\<open>NULL\<close> or of a pointer to no block.
\<close>

datatype emit_status = Done | WriteFailed | Aborted | BadPointer

type_synonym emitter = "out_file \<Rightarrow> emit_status \<times> out_file"

definition fprintf :: "string \<Rightarrow> emitter" where
  "fprintf s file =
     (if accepts file (calls file)
      then (Done, file\<lparr>written := written file @ s, calls := Suc (calls file)\<rparr>)
      else (WriteFailed, file\<lparr>calls := Suc (calls file)\<rparr>))"

text \<open>\<^verbatim>\<open>if (!f(...)) return 0;\<close> followed by the rest of the function.\<close>

definition and_then :: "emitter \<Rightarrow> emitter \<Rightarrow> emitter" where
  "and_then f g file = (case f file of (r, file') \<Rightarrow> if r = Done then g file' else (r, file'))"

definition skip :: emitter where
  "skip file = (Done, file)"

definition abort :: emitter where
  "abort file = (Aborted, file)"

text \<open>A counting \<^verbatim>\<open>for\<close> loop that writes the same text on every turn.\<close>

fun fprintf_times :: "nat \<Rightarrow> string \<Rightarrow> emitter" where
  "fprintf_times 0 s file = (Done, file)"
| "fprintf_times (Suc n) s file = and_then (fprintf s) (fprintf_times n s) file"

definition print_tab :: "nat \<Rightarrow> emitter" where
  "print_tab count = fprintf_times count ''    ''"

section \<open>The emitter\<close>

datatype Target = TARGET_NOT_SELECTED | TARGET_BF | TARGET_NASM_LIBC | TARGET_NASM_LINUX

definition BF_MEMORY_SIZE_STR :: string where
  "BF_MEMORY_SIZE_STR = ''3000''"

text \<open>The conversions \<^verbatim>\<open>%PRIu8\<close> and \<^verbatim>\<open>%PRIu16\<close>: an unsigned number in decimal.\<close>

fun decimal :: "nat \<Rightarrow> string" where
  "decimal n = (if n < 10 then [''0123456789'' ! n]
                else decimal (n div 10) @ [''0123456789'' ! (n mod 10)])"

declare decimal.simps [simp del]

definition emit_file_head :: "Target \<Rightarrow> emitter" where
  "emit_file_head target =
     (case target of
        TARGET_BF \<Rightarrow> skip
      | TARGET_NASM_LINUX \<Rightarrow>
          fprintf (''global _start\<newline>\<newline>section .bss\<newline>tmp resd 1\<newline>\<newline>section .data\<newline>mem db ''
                   @ BF_MEMORY_SIZE_STR
                   @ '' dup(0)\<newline>\<newline>section .text\<newline>_start:\<newline>xor esi, esi\<newline>'')
      | TARGET_NASM_LIBC \<Rightarrow>
          fprintf (''extern putchar\<newline>extern getchar\<newline>extern exit\<newline>global _start\<newline>\<newline>section .data\<newline>mem db ''
                   @ BF_MEMORY_SIZE_STR
                   @ '' dup(0)\<newline>\<newline>section .text\<newline>_start:\<newline>xor esi, esi\<newline>'')
      | TARGET_NOT_SELECTED \<Rightarrow> abort)"

definition emit_file_tail :: "Target \<Rightarrow> emitter" where
  "emit_file_tail target =
     (case target of
        TARGET_BF \<Rightarrow> skip
      | TARGET_NASM_LINUX \<Rightarrow> fprintf ''mov eax, 1\<newline>mov ebx, 0\<newline>int 80h\<newline>''
      | TARGET_NASM_LIBC \<Rightarrow> fprintf ''mov rdi, 0\<newline>call exit\<newline>''
      | TARGET_NOT_SELECTED \<Rightarrow> abort)"

text \<open>
  The assembly labels print the address of the loop's block with \<^verbatim>\<open>%p\<close>. The address
  is chosen by the allocator and its text by the C library, so the model takes the text
  as a parameter: \<open>fmt_p i\<close> is what \<^verbatim>\<open>%p\<close> prints for the block allocated \<open>i\<close>-th.
\<close>

definition emit_loop_head :: "(nat \<Rightarrow> string) \<Rightarrow> nat \<Rightarrow> nat \<Rightarrow> Target \<Rightarrow> emitter" where
  "emit_loop_head fmt_p loop layer target =
     (case target of
        TARGET_BF \<Rightarrow> and_then (print_tab layer) (fprintf ''[\<newline>'')
      | TARGET_NOT_SELECTED \<Rightarrow> abort
      | _ \<Rightarrow>
          fprintf (''.loop_'' @ fmt_p loop @ '':\<newline>cmp byte [mem + esi], 0\<newline>je .end_''
                   @ fmt_p loop @ ''\<newline>''))"

text \<open>
  \<^verbatim>\<open>emit_loop_tail\<close> indents by \<^verbatim>\<open>layer - 1\<close>. \<^verbatim>\<open>emit_code\<close> calls it only after a pop, with the
  depth equal to the number of loops that were open, so at least 1; at depth 0 the
  \<^verbatim>\<open>size_t\<close> of the source would wrap where the natural number stays 0.
\<close>

definition emit_loop_tail :: "(nat \<Rightarrow> string) \<Rightarrow> nat \<Rightarrow> nat \<Rightarrow> Target \<Rightarrow> emitter" where
  "emit_loop_tail fmt_p loop layer target =
     (case target of
        TARGET_BF \<Rightarrow> and_then (print_tab (layer - 1)) (fprintf '']\<newline>'')
      | TARGET_NOT_SELECTED \<Rightarrow> abort
      | _ \<Rightarrow>
          fprintf (''jmp .loop_'' @ fmt_p loop @ ''\<newline>.end_'' @ fmt_p loop @ '':\<newline>''))"

definition inc_signed_count :: "8 word \<Rightarrow> int" where
  "inc_signed_count v =
     (let count = uint v in
      if count > 127 then - (255 - count + 1) else count)"

definition emit_op_inc :: "8 word \<Rightarrow> nat \<Rightarrow> Target \<Rightarrow> emitter" where
  "emit_op_inc v layer target =
     (case target of
        TARGET_BF \<Rightarrow>
          and_then (print_tab layer)
            (let count = inc_signed_count v in
             and_then (fprintf_times (nat count) ''+'')
               (and_then (fprintf_times (nat (- count)) ''-'')
                  (fprintf ''\<newline>'')))
      | TARGET_NOT_SELECTED \<Rightarrow> abort
      | _ \<Rightarrow>
          fprintf (''mov al, [mem + esi]\<newline>add al, '' @ decimal (unat v)
                   @ ''\<newline>mov [mem + esi], al\<newline>''))"

definition shift_signed_count :: "16 word \<Rightarrow> int" where
  "shift_signed_count i =
     (let count = uint i in
      if count > BF_MEMORY_SIZE div 2 then - (BF_MEMORY_SIZE - count) else count)"

definition emit_op_shift :: "16 word \<Rightarrow> nat \<Rightarrow> Target \<Rightarrow> emitter" where
  "emit_op_shift i layer target =
     (case target of
        TARGET_BF \<Rightarrow>
          and_then (print_tab layer)
            (let count = shift_signed_count i in
             and_then (fprintf_times (nat count) ''>'')
               (and_then (fprintf_times (nat (- count)) ''<'')
                  (fprintf ''\<newline>'')))
      | TARGET_NOT_SELECTED \<Rightarrow> abort
      | _ \<Rightarrow>
          fprintf (''add si, '' @ decimal (unat i)
                   @ ''\<newline>xor dx, dx\<newline>mov ax, si\<newline>mov bx, '' @ BF_MEMORY_SIZE_STR
                   @ ''\<newline>div bx\<newline>mov si, dx\<newline>''))"

definition emit_op_read :: "nat \<Rightarrow> Target \<Rightarrow> emitter" where
  "emit_op_read layer target =
     (case target of
        TARGET_BF \<Rightarrow> and_then (print_tab layer) (fprintf '',\<newline>'')
      | TARGET_NASM_LIBC \<Rightarrow> fprintf ''call getchar\<newline>mov [mem + esi], al\<newline>''
      | TARGET_NASM_LINUX \<Rightarrow>
          fprintf ''mov eax, 0x3\<newline>mov ebx, 0x1\<newline>mov ecx, tmp\<newline>mov edx, 0x1\<newline>int 80h\<newline>mov eax, [tmp]\<newline>mov [mem + esi], eax\<newline>''
      | TARGET_NOT_SELECTED \<Rightarrow> abort)"

definition emit_op_write :: "nat \<Rightarrow> Target \<Rightarrow> emitter" where
  "emit_op_write layer target =
     (case target of
        TARGET_BF \<Rightarrow> and_then (print_tab layer) (fprintf ''.\<newline>'')
      | TARGET_NASM_LIBC \<Rightarrow>
          fprintf ''xor rdi, rdi\<newline>mov dil, [mem + esi]\<newline>call putchar\<newline>''
      | TARGET_NASM_LINUX \<Rightarrow>
          fprintf ''xor eax, eax\<newline>mov al, [mem + esi]\<newline>mov [tmp], eax\<newline>mov eax, 0x4\<newline>mov ebx, 0x1\<newline>mov ecx, tmp\<newline>mov edx, 0x1\<newline>int 80h\<newline>''
      | TARGET_NOT_SELECTED \<Rightarrow> abort)"

text \<open>
  The \<^verbatim>\<open>switch\<close> on the tag inside the loop over a block's operations. Its \<^verbatim>\<open>default\<close>
  branch needs a fifth tag, which the datatype does not have.
\<close>

definition emit_op :: "Op \<Rightarrow> nat \<Rightarrow> Target \<Rightarrow> emitter" where
  "emit_op op layer target =
     (case op of
        OpInc v \<Rightarrow> emit_op_inc v layer target
      | OpShift i \<Rightarrow> emit_op_shift i layer target
      | OpRead \<Rightarrow> emit_op_read layer target
      | OpWrite \<Rightarrow> emit_op_write layer target)"

fun emit_ops :: "Op list \<Rightarrow> nat \<Rightarrow> Target \<Rightarrow> emitter" where
  "emit_ops [] layer target file = (Done, file)"
| "emit_ops (op # rest) layer target file =
     and_then (emit_op op layer target) (emit_ops rest layer target) file"

text \<open>
  The variables of the \<^verbatim>\<open>while (1)\<close> loop of \<^verbatim>\<open>emit_code\<close>: the block at hand, the nesting
  depth and the stack of open loops (head of the list on top). \<open>visited\<close> is not in the
  source: it records, in order, the blocks the loop has been at, and nothing reads it.
  The \<^verbatim>\<open>size_t\<close> depth is a natural number: the loop raises it with every push and
  lowers it with every pop, so \<^verbatim>\<open>layer - 1\<close> in \<^verbatim>\<open>emit_loop_tail\<close> and \<^verbatim>\<open>layer--\<close> are taken
  with at least one loop open. The stack grows without \<^verbatim>\<open>realloc\<close> failing.
\<close>

record walk =
  blk :: nat
  layer :: nat
  loops :: "nat list"
  visited :: "nat list"

text \<open>
  The loop. It may run forever on a heap whose \<^verbatim>\<open>next\<close> links form a cycle, so it is a
  partial function: \<open>None\<close> means that it does not return.
\<close>

partial_function (option) emit_blocks ::
    "(nat \<Rightarrow> string) \<Rightarrow> Target \<Rightarrow> Block list \<Rightarrow> walk \<Rightarrow> out_file
       \<Rightarrow> (emit_status \<times> walk \<times> out_file) option" where
  "emit_blocks fmt_p target hp w file =
     (if \<not> blk w < length hp then Some (BadPointer, w, file)
      else
        let block = hp ! blk w;
            w0 = w\<lparr>visited := visited w @ [blk w]\<rparr>;
            (r1, w1, file1) =
              (if exit block \<noteq> None then
                 (case emit_loop_head fmt_p (blk w0) (layer w0) target file of
                    (r, file') \<Rightarrow>
                      (r, w0\<lparr>loops := blk w0 # loops w0, layer := Suc (layer w0)\<rparr>, file'))
               else (Done, w0, file))
        in
        if r1 \<noteq> Done then Some (r1, w1, file1)
        else
          (case emit_ops (ops block) (layer w1) target file1 of
             (r2, file2) \<Rightarrow>
               if r2 \<noteq> Done then Some (r2, w1, file2)
               else
                 (case next block of
                    None \<Rightarrow>
                      (case loops w1 of
                         [] \<Rightarrow> Some (Done, w1, file2)
                       | loop # rest \<Rightarrow>
                           (case emit_loop_tail fmt_p loop (layer w1) target file2 of
                              (r3, file3) \<Rightarrow>
                                if r3 \<noteq> Done then Some (r3, w1\<lparr>loops := rest\<rparr>, file3)
                                else
                                  (case (if loop < length hp then exit (hp ! loop) else None) of
                                     None \<Rightarrow> Some (BadPointer, w1\<lparr>loops := rest\<rparr>, file3)
                                   | Some e \<Rightarrow>
                                       emit_blocks fmt_p target hp
                                         (w1\<lparr>blk := e, loops := rest, layer := layer w1 - 1\<rparr>)
                                         file3)))
                  | Some n \<Rightarrow> emit_blocks fmt_p target hp (w1\<lparr>blk := n\<rparr>) file2)))"

declare emit_blocks.simps [code]

text \<open>
  \<^verbatim>\<open>emit_code\<close>: the head of the file, the loop from the root with depth 0 and no open
  loop, the tail of the file, and \<^verbatim>\<open>ASSERT(layer == 0)\<close>.
\<close>

definition emit_code ::
    "(nat \<Rightarrow> string) \<Rightarrow> Block list \<Rightarrow> nat \<Rightarrow> Target \<Rightarrow> out_file
       \<Rightarrow> (emit_status \<times> walk \<times> out_file) option" where
  "emit_code fmt_p hp root target file =
     (let w = \<lparr>blk = root, layer = 0, loops = [], visited = []\<rparr> in
      case emit_file_head target file of
        (r0, file0) \<Rightarrow>
          if r0 \<noteq> Done then Some (r0, w, file0)
          else
            (case emit_blocks fmt_p target hp w file0 of
               None \<Rightarrow> None
             | Some (r1, w1, file1) \<Rightarrow>
                 if r1 \<noteq> Done then Some (r1, w1, file1)
                 else
                   (case emit_file_tail target file1 of
                      (r2, file2) \<Rightarrow>
                        if r2 \<noteq> Done then Some (r2, w1, file2)
                        else if layer w1 \<noteq> 0 then Some (Aborted, w1, file2)
                        else Some (Done, w1, file2))))"

text \<open>A file that accepts every write, empty at the start.\<close>

definition fresh_file :: out_file where
  "fresh_file = \<lparr>written = [], calls = 0, accepts = (\<lambda>_. True)\<rparr>"

section \<open>Vocabulary of the properties\<close>

text \<open>The tag of an operation: the value of the \<^verbatim>\<open>OpTag\<close> enumeration.\<close>

definition op_tag :: "Op \<Rightarrow> nat" where
  "op_tag op = (case op of OpInc _ \<Rightarrow> 0 | OpShift _ \<Rightarrow> 1 | OpRead \<Rightarrow> 2 | OpWrite \<Rightarrow> 3)"

text \<open>Two operations that \<^verbatim>\<open>block_append_op\<close> merges: the same tag, INC or SHIFT.\<close>

definition mergeable :: "Op \<Rightarrow> Op \<Rightarrow> bool" where
  "mergeable a b = (op_tag a = op_tag b \<and> (op_tag a = 0 \<or> op_tag a = 1))"

text \<open>
  An operation worth storing: an increment between 1 and 255, a shift between 1 and
  \<^verbatim>\<open>BF_MEMORY_SIZE - 1\<close>.
\<close>

definition op_ok :: "Op \<Rightarrow> bool" where
  "op_ok op =
     (case op of
        OpInc v \<Rightarrow> 1 \<le> uint v \<and> uint v \<le> 255
      | OpShift i \<Rightarrow> 1 \<le> uint i \<and> uint i \<le> BF_MEMORY_SIZE - 1
      | _ \<Rightarrow> True)"

text \<open>A merged operation sequence: every operation worth storing, no two neighbours mergeable.\<close>

definition ops_wf :: "Op list \<Rightarrow> bool" where
  "ops_wf items = (list_all op_ok items \<and> successively (\<lambda>a b. \<not> mergeable a b) items)"

text \<open>What holds of the state of \<^verbatim>\<open>parse\<close> after every character.\<close>

definition pstate_wf :: "pstate \<Rightarrow> bool" where
  "pstate_wf st =
     (Suc (cur st) = length (heap st)
      \<and> list_all (\<lambda>b. ops_wf (ops b)) (heap st)
      \<and> distinct (unclosed st)
      \<and> list_all (\<lambda>h. h \<le> cur st) (unclosed st)
      \<and> next (heap st ! cur st) = None
      \<and> (cur st \<in> set (unclosed st) \<or> exit (heap st ! cur st) = None)
      \<and> (cur st \<notin> set (unclosed st) \<or> hd (unclosed st) = cur st))"

text \<open>Counting the brackets of a source text.\<close>

definition opens :: "string \<Rightarrow> nat" where
  "opens s = count_list s CHR ''[''"

definition closes :: "string \<Rightarrow> nat" where
  "closes s = count_list s CHR '']''"

text \<open>
  Balanced and properly nested: no prefix of the text closes more loops than it has
  opened, and the whole text closes as many as it opens.
\<close>

definition balanced :: "string \<Rightarrow> bool" where
  "balanced s =
     (list_all (\<lambda>n. closes (take n s) \<le> opens (take n s)) [0..<Suc (length s)]
      \<and> closes s = opens s)"

text \<open>The state with the operations of the current block replaced.\<close>

definition set_cur_ops :: "pstate \<Rightarrow> Op list \<Rightarrow> pstate" where
  "set_cur_ops st items = st\<lparr>heap := (heap st)[cur st := (heap st ! cur st)\<lparr>ops := items\<rparr>]\<rparr>"

text \<open>
  A sequence of write calls made one after the other, as long as they succeed: what
  every emitting function comes down to.
\<close>

fun write_calls :: "string list \<Rightarrow> emitter" where
  "write_calls [] file = (Done, file)"
| "write_calls (s # ss) file = and_then (fprintf s) (write_calls ss) file"

text \<open>An emitting function that makes exactly the write calls \<open>ws\<close>, stopping at the first failure.\<close>

definition writes :: "emitter \<Rightarrow> string list \<Rightarrow> bool" where
  "writes e ws = (e = write_calls ws)"

text \<open>A file on which no write fails.\<close>

definition reliable :: "out_file \<Rightarrow> bool" where
  "reliable file = (\<forall>n. accepts file n)"

text \<open>The file after the successful calls \<open>ws\<close>.\<close>

definition wrote :: "string list \<Rightarrow> out_file \<Rightarrow> out_file" where
  "wrote ws file = file\<lparr>written := written file @ concat ws, calls := calls file + length ws\<rparr>"

text \<open>The text an emitting function puts into an empty file that accepts it.\<close>

definition text_of :: "emitter \<Rightarrow> string" where
  "text_of e = written (snd (e fresh_file))"

text \<open>
  The write calls behind each piece of output. The normalized-source target makes one
  call per indentation step and per character of a run; the assembly targets make
  one call with the whole template.
\<close>

definition op_calls :: "Op \<Rightarrow> nat \<Rightarrow> Target \<Rightarrow> string list" where
  "op_calls op d target =
     (if target = TARGET_BF then
        replicate d ''    '' @
        (case op of
           OpInc v \<Rightarrow> replicate (nat (inc_signed_count v)) ''+''
                        @ replicate (nat (- inc_signed_count v)) ''-'' @ [''\<newline>'']
         | OpShift i \<Rightarrow> replicate (nat (shift_signed_count i)) ''>''
                        @ replicate (nat (- shift_signed_count i)) ''<'' @ [''\<newline>'']
         | OpRead \<Rightarrow> ['',\<newline>'']
         | OpWrite \<Rightarrow> [''.\<newline>''])
      else [text_of (emit_op op d target)])"

definition ops_calls :: "Op list \<Rightarrow> nat \<Rightarrow> Target \<Rightarrow> string list" where
  "ops_calls items d target = concat (map (\<lambda>op. op_calls op d target) items)"

definition head_calls :: "(nat \<Rightarrow> string) \<Rightarrow> nat \<Rightarrow> nat \<Rightarrow> Target \<Rightarrow> string list" where
  "head_calls fmt_p loop d target =
     (if target = TARGET_BF then replicate d ''    '' @ [''[\<newline>'']
      else [text_of (emit_loop_head fmt_p loop d target)])"

definition tail_calls :: "(nat \<Rightarrow> string) \<Rightarrow> nat \<Rightarrow> nat \<Rightarrow> Target \<Rightarrow> string list" where
  "tail_calls fmt_p loop d target =
     (if target = TARGET_BF then replicate (d - 1) ''    '' @ ['']\<newline>'']
      else [text_of (emit_loop_tail fmt_p loop d target)])"

definition file_head_calls :: "Target \<Rightarrow> string list" where
  "file_head_calls target = (if target = TARGET_BF then [] else [text_of (emit_file_head target)])"

definition file_tail_calls :: "Target \<Rightarrow> string list" where
  "file_tail_calls target = (if target = TARGET_BF then [] else [text_of (emit_file_tail target)])"

text \<open>The result of the emitter as its caller sees it: the status and the file.\<close>

definition outcome :: "(emit_status \<times> walk \<times> out_file) option \<Rightarrow> (emit_status \<times> out_file) option" where
  "outcome r = map_option (\<lambda>(s, w, fl). (s, fl)) r"

text \<open>
  \<open>f\<close> makes the write calls \<open>ws\<close> and goes on as \<open>g\<close>; when one of the calls fails, \<open>f\<close>
  returns that failure and the file as the failed call left it.
\<close>

definition after_writes ::
    "string list \<Rightarrow> (out_file \<Rightarrow> (emit_status \<times> walk \<times> out_file) option)
       \<Rightarrow> (out_file \<Rightarrow> (emit_status \<times> walk \<times> out_file) option) \<Rightarrow> bool" where
  "after_writes ws f g =
     (\<forall>fl. case write_calls ws fl of
             (r, fl') \<Rightarrow> if r = Done then f fl = g fl' else outcome (f fl) = Some (r, fl'))"

text \<open>
  The loop variables of \<^verbatim>\<open>emit_code\<close> once the head of the block at hand has been dealt
  with: a loop header has been pushed and the depth raised.
\<close>

definition entered :: "Block list \<Rightarrow> walk \<Rightarrow> walk" where
  "entered hp w =
     (let w0 = w\<lparr>visited := visited w @ [blk w]\<rparr> in
      if exit (hp ! blk w) \<noteq> None
      then w0\<lparr>loops := blk w0 # loops w0, layer := Suc (layer w0)\<rparr>
      else w0)"

text \<open>The write calls of one block: its loop head, if it is a loop header, and its operations.\<close>

definition block_calls :: "(nat \<Rightarrow> string) \<Rightarrow> Target \<Rightarrow> Block list \<Rightarrow> walk \<Rightarrow> string list" where
  "block_calls fmt_p target hp w =
     (if exit (hp ! blk w) \<noteq> None then head_calls fmt_p (blk w) (layer w) target else [])
     @ ops_calls (ops (hp ! blk w)) (layer (entered hp w)) target"

text \<open>
  The open loops of the builder that the emitter has on its stack when it arrives at
  the current block: all of them but the current block itself.
\<close>

definition pending :: "pstate \<Rightarrow> nat list" where
  "pending st = (if cur st \<in> set (unclosed st) then tl (unclosed st) else unclosed st)"

definition at_cur :: "pstate \<Rightarrow> nat list \<Rightarrow> walk" where
  "at_cur st vis = \<lparr>blk = cur st, layer = length (pending st), loops = pending st, visited = vis\<rparr>"

text \<open>
  The write calls of the emitter told along the source text: \<open>script fmt_p target src st\<close>
  lists the calls from the operations of the current block of \<open>st\<close> to the end of the
  program that the builder makes of \<open>src\<close> from \<open>st\<close>.
\<close>

fun script :: "(nat \<Rightarrow> string) \<Rightarrow> Target \<Rightarrow> string \<Rightarrow> pstate \<Rightarrow> string list" where
  "script fmt_p target [] st =
     ops_calls (ops (heap st ! cur st)) (length (unclosed st)) target"
| "script fmt_p target (c # cs) st =
     (case parse_char c st of
        Inl e \<Rightarrow> []
      | Inr st' \<Rightarrow>
          if c = CHR ''['' then
            ops_calls (ops (heap st ! cur st)) (length (unclosed st)) target
            @ head_calls fmt_p (cur st') (length (unclosed st)) target
            @ script fmt_p target cs st'
          else if c = CHR '']'' then
            ops_calls (ops (heap st ! cur st)) (length (unclosed st)) target
            @ tail_calls fmt_p (hd (unclosed st)) (length (unclosed st)) target
            @ script fmt_p target cs st'
          else script fmt_p target cs st')"

text \<open>
  A heap that a later state of the builder may hold, seen from the state \<open>st\<close>: the
  blocks before the current one keep their operations and their \<^verbatim>\<open>next\<close>, keep their
  \<^verbatim>\<open>exit\<close> unless their loop is still open, and every open loop has got its \<^verbatim>\<open>exit\<close>.
\<close>

definition agrees :: "pstate \<Rightarrow> Block list \<Rightarrow> bool" where
  "agrees st hp =
     (length (heap st) \<le> length hp
      \<and> (\<forall>i < cur st. next (hp ! i) = next (heap st ! i) \<and> ops (hp ! i) = ops (heap st ! i)
                       \<and> (i \<in> set (unclosed st) \<or> exit (hp ! i) = exit (heap st ! i)))
      \<and> (\<forall>i \<in> set (unclosed st). exit (hp ! i) \<noteq> None))"

text \<open>All the write calls of \<^verbatim>\<open>emit_code\<close> on the program built from \<open>src\<close>.\<close>

definition program_calls :: "(nat \<Rightarrow> string) \<Rightarrow> Target \<Rightarrow> string \<Rightarrow> string list" where
  "program_calls fmt_p target src =
     file_head_calls target @ script fmt_p target src parse_init @ file_tail_calls target"

text \<open>The loop variables with which \<^verbatim>\<open>emit_code\<close> leaves its loop on a heap of \<open>n\<close> blocks.\<close>

definition final_walk :: "nat \<Rightarrow> walk" where
  "final_walk n = \<lparr>blk = n - 1, layer = 0, loops = [], visited = [0..<n]\<rparr>"

section \<open>Properties\<close>

lemma mergeable_simps [simp]:
  "mergeable (OpInc a) (OpInc b)" "mergeable (OpShift i) (OpShift j)"
  "\<not> mergeable (OpInc a) (OpShift j)" "\<not> mergeable (OpShift j) (OpInc a)"
  "\<not> mergeable OpRead x" "\<not> mergeable OpWrite x" "\<not> mergeable x OpRead" "\<not> mergeable x OpWrite"
  by (auto simp: mergeable_def op_tag_def split: Op.splits)

lemma op_ok_simps [simp]:
  "op_ok (OpInc v) = (v \<noteq> 0)"
  "op_ok (OpShift i) = (i \<noteq> 0 \<and> uint i < 3000)"
  "op_ok OpRead" "op_ok OpWrite"
proof -
  have "uint v < 256" using uint_lt2p [of v] by simp
  moreover have "(1 \<le> uint v) = (uint v \<noteq> 0)" using uint_ge_0 [of v] by arith
  moreover have "(v = 0) = (uint v = 0)" by (simp add: word_uint_eq_iff)
  ultimately show "op_ok (OpInc v) = (v \<noteq> 0)"
    by (auto simp: op_ok_def)
  have "(1 \<le> uint i) = (uint i \<noteq> 0)" using uint_ge_0 [of i] by arith
  moreover have "(i = 0) = (uint i = 0)" by (simp add: word_uint_eq_iff)
  ultimately show "op_ok (OpShift i) = (i \<noteq> 0 \<and> uint i < 3000)"
    by (auto simp: op_ok_def BF_MEMORY_SIZE_def)
qed (simp_all add: op_ok_def)

lemma ops_wf_Nil [simp]: "ops_wf []"
  by (simp add: ops_wf_def)

lemma ops_wf_single [simp]: "ops_wf [x] = op_ok x"
  by (simp add: ops_wf_def)

lemma ops_wf_snoc:
  "ops_wf (xs @ [x]) = (ops_wf xs \<and> op_ok x \<and> (xs = [] \<or> \<not> mergeable (last xs) x))"
  by (auto simp: ops_wf_def successively_append_iff)

lemma block_append_op_links [simp]:
  "next (block_append_op b op) = next b" "exit (block_append_op b op) = exit b"
  by (auto simp: block_append_op_def Let_def split: Op.splits)

lemma block_append_op_Nil: "ops b = [] \<Longrightarrow> ops (block_append_op b op) = [op]"
  by (simp add: block_append_op_def)

lemma block_append_op_inc:
  "ops b = xs @ [OpInc a] \<Longrightarrow>
   ops (block_append_op b (OpInc v)) = (if a + v = 0 then xs else xs @ [OpInc (a + v)])"
  by (simp add: block_append_op_def Let_def)

lemma block_append_op_shift:
  "ops b = xs @ [OpShift a] \<Longrightarrow>
   ops (block_append_op b (OpShift v)) =
     (if word_of_int (uint (a + v) mod 3000) = (0 :: 16 word) then xs
      else xs @ [OpShift (word_of_int (uint (a + v) mod 3000))])"
  by (simp add: block_append_op_def Let_def BF_MEMORY_SIZE_def)

lemma block_append_op_other:
  "ops b = xs @ [x] \<Longrightarrow> \<not> mergeable x op \<Longrightarrow> ops (block_append_op b op) = xs @ [x, op]"
  by (cases x; cases op) (auto simp: block_append_op_def Let_def)

lemma shift_sum_no_wrap:
  fixes a v :: "16 word"
  assumes "uint a < 3000" "uint v < 3000"
  shows "uint (a + v) = uint a + uint v"
  using assms uint_ge_0 [of a] uint_ge_0 [of v]
  by (simp add: uint_word_ariths)

lemma shift_merge_uint:
  fixes a v :: "16 word"
  assumes "uint a < 3000" "uint v < 3000"
  shows "uint (word_of_int (uint (a + v) mod 3000) :: 16 word) = (uint a + uint v) mod 3000"
proof -
  have "0 \<le> (uint a + uint v) mod 3000" "(uint a + uint v) mod 3000 < 3000"
    by simp_all
  then show ?thesis
    using assms by (simp add: shift_sum_no_wrap uint_word_of_int)
qed

lemma ops_wf_append_op:
  assumes "ops_wf (ops b)" "op_ok op"
  shows "ops_wf (ops (block_append_op b op))"
proof (cases "ops b" rule: rev_cases)
  case Nil
  with assms show ?thesis by (simp add: block_append_op_Nil)
next
  case (snoc xs x)
  with assms have xs: "ops_wf xs" and x: "op_ok x" and adj: "xs = [] \<or> \<not> mergeable (last xs) x"
    by (simp_all add: ops_wf_snoc)
  show ?thesis
  proof (cases "mergeable x op")
    case False
    with snoc assms xs x adj show ?thesis
      using ops_wf_snoc [of "xs @ [x]" op] by (simp add: block_append_op_other ops_wf_snoc)
  next
    case True
    then consider a v where "x = OpInc a" "op = OpInc v" | a v where "x = OpShift a" "op = OpShift v"
      by (cases x; cases op) simp_all
    then show ?thesis
    proof cases
      case 1
      with snoc xs adj show ?thesis
        by (cases "last xs") (auto simp: block_append_op_inc ops_wf_snoc)
    next
      case 2
      let ?s = "word_of_int (uint (a + v) mod 3000) :: 16 word"
      from 2 x assms have "uint a < 3000" "uint v < 3000" by simp_all
      then have "uint ?s = (uint a + uint v) mod 3000" by (rule shift_merge_uint)
      then have "uint ?s < 3000" by simp
      with 2 snoc xs adj show ?thesis
        by (cases "last xs") (auto simp: block_append_op_shift ops_wf_snoc)
    qed
  qed
qed

lemma pstate_wf_init: "pstate_wf parse_init"
  by (simp add: pstate_wf_def parse_init_def empty_block_def)

lemma op_of_char_ok: "op_of_char c = Some op \<Longrightarrow> op_ok op"
  by (auto simp: op_of_char_def BF_MEMORY_SIZE_def split: if_splits)

lemma list_all_update:
  "list_all P xs \<Longrightarrow> (i < length xs \<Longrightarrow> P y) \<Longrightarrow> list_all P (xs[i := y])"
  by (cases "i < length xs") (auto simp: list_all_length nth_list_update)

lemma pstate_wf_parse_char:
  assumes "pstate_wf st" "parse_char c st = Inr st'"
  shows "pstate_wf st'"
proof -
  from assms(1) have len: "Suc (cur st) = length (heap st)"
    and wf: "list_all (\<lambda>b. ops_wf (ops b)) (heap st)"
    and dist: "distinct (unclosed st)"
    and bound: "list_all (\<lambda>h. h \<le> cur st) (unclosed st)"
    and nxt: "next (heap st ! cur st) = None"
    and ex: "cur st \<in> set (unclosed st) \<or> exit (heap st ! cur st) = None"
    and top: "cur st \<notin> set (unclosed st) \<or> hd (unclosed st) = cur st"
    by (simp_all add: pstate_wf_def)
  from len have curlt: "cur st < length (heap st)" by simp
  from wf curlt have curwf: "ops_wf (ops (heap st ! cur st))"
    by (simp add: list_all_length)
  consider (op) tag where "op_of_char c = Some tag"
      "st' = st\<lparr>heap := (heap st)[cur st := block_append_op (heap st ! cur st) tag]\<rparr>"
    | (opn) "c = CHR ''[''"
      "st' = st\<lparr>heap := (heap st)[cur st := (heap st ! cur st)\<lparr>next := Some (length (heap st))\<rparr>] @ [empty_block],
                 cur := length (heap st), unclosed := length (heap st) # unclosed st\<rparr>"
    | (cls) backedge rest where "c = CHR '']''" "unclosed st = backedge # rest"
      "st' = st\<lparr>heap := (heap st)[backedge := (heap st ! backedge)\<lparr>exit := Some (length (heap st))\<rparr>] @ [empty_block],
                 cur := length (heap st), unclosed := rest\<rparr>"
    | (other) "st' = st"
    using assms(2)
    by (auto simp: parse_char_def Let_def split: if_splits option.splits list.splits)
  then show ?thesis
  proof cases
    case op
    from op(1) have "op_ok tag" by (rule op_of_char_ok)
    with curwf have "ops_wf (ops (block_append_op (heap st ! cur st) tag))"
      by (rule ops_wf_append_op)
    with wf have "list_all (\<lambda>b. ops_wf (ops b)) ((heap st)[cur st := block_append_op (heap st ! cur st) tag])"
      by (intro list_all_update) simp_all
    with op(2) len dist bound nxt ex top curlt show ?thesis
      by (simp add: pstate_wf_def)
  next
    case opn
    have "list_all (\<lambda>b. ops_wf (ops b)) ((heap st)[cur st := (heap st ! cur st)\<lparr>next := Some (length (heap st))\<rparr>])"
      using wf curwf by (intro list_all_update) simp_all
    moreover have "list_all (\<lambda>h. h \<le> length (heap st)) (unclosed st)"
      using bound len by (auto simp: list_all_iff)
    moreover have "length (heap st) \<notin> set (unclosed st)"
      using bound len by (auto simp: list_all_iff)
    ultimately show ?thesis
      using opn(2) len dist by (simp add: pstate_wf_def nth_append empty_block_def)
  next
    case cls
    from bound cls(2) len have blt: "backedge < length (heap st)"
      by (auto simp: list_all_iff)
    from wf blt have "ops_wf (ops (heap st ! backedge))" by (simp add: list_all_length)
    then have "list_all (\<lambda>b. ops_wf (ops b)) ((heap st)[backedge := (heap st ! backedge)\<lparr>exit := Some (length (heap st))\<rparr>])"
      using wf by (intro list_all_update) simp_all
    moreover have "list_all (\<lambda>h. h \<le> length (heap st)) rest"
      using bound len cls(2) by (auto simp: list_all_iff)
    moreover have "length (heap st) \<notin> set rest"
      using bound len cls(2) by (auto simp: list_all_iff)
    ultimately show ?thesis
      using cls(2,3) len dist by (simp add: pstate_wf_def nth_append empty_block_def)
  next
    case other
    with assms(1) show ?thesis by simp
  qed
qed

lemma pstate_wf_parse_loop:
  "pstate_wf st \<Longrightarrow> parse_loop src st = Inr st' \<Longrightarrow> pstate_wf st'"
proof (induction src arbitrary: st)
  case Nil
  then show ?case by simp
next
  case (Cons c cs)
  then show ?case
    by (auto split: sum.splits dest: pstate_wf_parse_char)
qed

lemma parse_loop_append:
  "parse_loop (xs @ ys) st =
     (case parse_loop xs st of Inl e \<Rightarrow> Inl e | Inr st' \<Rightarrow> parse_loop ys st')"
  by (induction xs arbitrary: st) (auto split: sum.splits)

lemma parse_Inr_iff:
  "parse src = Inr hp \<longleftrightarrow> (\<exists>st. parse_loop src parse_init = Inr st \<and> unclosed st = [] \<and> hp = heap st)"
  by (auto simp: parse_def split: sum.splits)

lemma parse_heap_wf:
  assumes "parse src = Inr hp"
  shows "list_all (\<lambda>b. ops_wf (ops b)) hp"
proof -
  from assms obtain st where "parse_loop src parse_init = Inr st" "hp = heap st"
    by (auto simp: parse_Inr_iff)
  with pstate_wf_parse_loop [OF pstate_wf_init] show ?thesis
    by (auto simp: pstate_wf_def)
qed




text \<open>
  C10: in every program \<^verbatim>\<open>parse\<close> returns, a stored increment lies between 1 and 255 and
  a stored shift between 1 and 2999. Whenever the scan merges a shift character into
  a stored shift, both operands are below 3000, so their 16-bit sum does not wrap:
  it is the sum of the two numbers.
\<close>

theorem C10_ops_in_range:
  assumes "parse src = Inr hp"
  shows "list_all (\<lambda>b. list_all op_ok (ops b)) hp
         \<and> (\<forall>pre c post st a v.
               src = pre @ c # post \<and> parse_loop pre parse_init = Inr st
               \<and> ops (heap st ! cur st) \<noteq> [] \<and> last (ops (heap st ! cur st)) = OpShift a
               \<and> op_of_char c = Some (OpShift v)
             \<longrightarrow> uint a < BF_MEMORY_SIZE \<and> uint v < BF_MEMORY_SIZE
                 \<and> uint a + uint v < 2 ^ 16 \<and> uint (a + v) = uint a + uint v)"
proof (rule conjI)
  from parse_heap_wf [OF assms] show "list_all (\<lambda>b. list_all op_ok (ops b)) hp"
    by (auto simp: list_all_iff ops_wf_def)
next
  show "\<forall>pre c post st a v.
               src = pre @ c # post \<and> parse_loop pre parse_init = Inr st
               \<and> ops (heap st ! cur st) \<noteq> [] \<and> last (ops (heap st ! cur st)) = OpShift a
               \<and> op_of_char c = Some (OpShift v)
             \<longrightarrow> uint a < BF_MEMORY_SIZE \<and> uint v < BF_MEMORY_SIZE
                 \<and> uint a + uint v < 2 ^ 16 \<and> uint (a + v) = uint a + uint v"
  proof (intro allI impI)
    fix pre c post st and a v :: "16 word"
    assume h: "src = pre @ c # post \<and> parse_loop pre parse_init = Inr st
               \<and> ops (heap st ! cur st) \<noteq> [] \<and> last (ops (heap st ! cur st)) = OpShift a
               \<and> op_of_char c = Some (OpShift v)"
    then have "pstate_wf st"
      using pstate_wf_parse_loop [OF pstate_wf_init] by blast
    then have "ops_wf (ops (heap st ! cur st))"
      by (simp add: pstate_wf_def list_all_length)
    with h have "op_ok (OpShift a)"
      by (metis last_in_set list_all_iff ops_wf_def)
    moreover from h have "op_ok (OpShift v)" by (blast intro: op_of_char_ok)
    ultimately have "uint a < 3000" "uint v < 3000" by simp_all
    then show "uint a < BF_MEMORY_SIZE \<and> uint v < BF_MEMORY_SIZE
                 \<and> uint a + uint v < 2 ^ 16 \<and> uint (a + v) = uint a + uint v"
      by (simp add: shift_sum_no_wrap BF_MEMORY_SIZE_def)
  qed
qed

theorem C10_ops_in_range_witness:
  "parse ''<<-'' = Inr [\<lparr>next = None, exit = None, ops = [OpShift 2998, OpInc 255]\<rparr>]
   \<and> op_ok (OpShift 2998) \<and> op_ok (OpInc 255)
   \<and> uint (2999 :: 16 word) + uint (2999 :: 16 word) < 2 ^ 16
   \<and> uint (2999 + 2999 :: 16 word) = uint (2999 :: 16 word) + uint (2999 :: 16 word)"
proof -
  have p: "parse ''<<-'' = Inr [\<lparr>next = None, exit = None, ops = [OpShift 2998, OpInc 255]\<rparr>]"
    by code_simp
  have s: "parse_loop ''<'' parse_init = Inr \<lparr>heap = [\<lparr>next = None, exit = None, ops = [OpShift 2999]\<rparr>], cur = 0, unclosed = []\<rparr>"
    by code_simp
  have c: "op_of_char CHR ''<'' = Some (OpShift 2999)"
    by code_simp
  note t = C10_ops_in_range [OF p]
  from t have "list_all (\<lambda>b. list_all op_ok (ops b)) [\<lparr>next = None, exit = None, ops = [OpShift 2998, OpInc 255]\<rparr>]"
    by (rule conjunct1)
  moreover have "uint (2999 :: 16 word) < BF_MEMORY_SIZE \<and> uint (2999 :: 16 word) < BF_MEMORY_SIZE
                 \<and> uint (2999 :: 16 word) + uint (2999 :: 16 word) < 2 ^ 16
                 \<and> uint (2999 + 2999 :: 16 word) = uint (2999 :: 16 word) + uint (2999 :: 16 word)"
    by (rule t [THEN conjunct2, rule_format, of "''<''" "CHR ''<''" "''-''"
            "\<lparr>heap = [\<lparr>next = None, exit = None, ops = [OpShift 2999]\<rparr>], cur = 0, unclosed = []\<rparr>"
            2999 2999])
      (simp del: parse_loop.simps add: s c)
  ultimately show ?thesis using p by simp
qed

lemma opens_simps [simp]:
  "opens [] = 0" "opens (c # cs) = (if c = CHR ''['' then 1 else 0) + opens cs"
  by (simp_all add: opens_def)

lemma closes_simps [simp]:
  "closes [] = 0" "closes (c # cs) = (if c = CHR '']'' then 1 else 0) + closes cs"
  by (simp_all add: closes_def)

lemma parse_char_Inl:
  "parse_char c st = Inl e \<Longrightarrow> e = BadBf \<and> c = CHR '']'' \<and> unclosed st = []"
  by (auto simp: parse_char_def op_of_char_def Let_def split: if_splits list.splits)

lemma parse_char_close_empty:
  "unclosed st = [] \<Longrightarrow> parse_char CHR '']'' st = Inl BadBf"
  by (simp add: parse_char_def)

lemma parse_char_Inr_depth:
  "parse_char c st = Inr st' \<Longrightarrow>
   length (unclosed st') + (if c = CHR '']'' then 1 else 0)
     = length (unclosed st) + (if c = CHR ''['' then 1 else 0)"
  by (auto simp: parse_char_def op_of_char_def Let_def split: if_splits list.splits)

lemma all_le_Suc_iff: "(\<forall>n \<le> Suc k. P n) \<longleftrightarrow> P 0 \<and> (\<forall>n \<le> k. P (Suc n))"
  by (metis Suc_le_mono le0 not0_implies_Suc)

lemma ex_le_Suc_iff: "(\<exists>n \<le> Suc k. P n) \<longleftrightarrow> P 0 \<or> (\<exists>n \<le> k. P (Suc n))"
  by (metis Suc_le_mono le0 not0_implies_Suc)

lemma parse_loop_Inl:
  "parse_loop s st = Inl e \<Longrightarrow>
   e = BadBf \<and> (\<exists>n \<le> length s. opens (take n s) + length (unclosed st) < closes (take n s))"
proof (induction s arbitrary: st)
  case Nil
  then show ?case by simp
next
  case (Cons c cs)
  show ?case
  proof (cases "parse_char c st")
    case (Inl e')
    with Cons.prems have "e = e'" by simp
    with Inl have "e = BadBf" "c = CHR '']''" "unclosed st = []"
      by (auto dest: parse_char_Inl)
    moreover have "1 \<le> length (c # cs)" by simp
    ultimately show ?thesis
      by (intro conjI exI [of _ 1]) simp_all
  next
    case (Inr st')
    with Cons.prems have "parse_loop cs st' = Inl e" by simp
    from Cons.IH [OF this] obtain n where n: "e = BadBf" "n \<le> length cs"
      "opens (take n cs) + length (unclosed st') < closes (take n cs)" by blast
    from parse_char_Inr_depth [OF Inr] n(3)
    have "opens (take (Suc n) (c # cs)) + length (unclosed st) < closes (take (Suc n) (c # cs))"
      by (auto split: if_splits)
    with n(1,2) show ?thesis
      by (intro conjI exI [of _ "Suc n"]) simp_all
  qed
qed

lemma parse_loop_Inr:
  "parse_loop s st = Inr st' \<Longrightarrow>
   length (unclosed st') + closes s = length (unclosed st) + opens s
   \<and> (\<forall>n \<le> length s. closes (take n s) \<le> opens (take n s) + length (unclosed st))"
proof (induction s arbitrary: st)
  case Nil
  then show ?case by simp
next
  case (Cons c cs)
  then obtain st1 where 1: "parse_char c st = Inr st1" and 2: "parse_loop cs st1 = Inr st'"
    by (auto split: sum.splits)
  from Cons.IH [OF 2] parse_char_Inr_depth [OF 1] show ?case
    by (auto simp: all_le_Suc_iff split: if_splits)
qed

lemma balanced_iff:
  "balanced s \<longleftrightarrow> (\<forall>n \<le> length s. closes (take n s) \<le> opens (take n s)) \<and> closes s = opens s"
  by (auto simp: balanced_def list_all_iff less_Suc_eq_le)

text \<open>
  C1, as the code has it. Both rejections go through \<^verbatim>\<open>crash_bad_bf\<close>: the text with a
  loop left open and the text with a stray \<^verbatim>\<open>]\<close> fail in the same way, and the failure
  carries no sub-kind.
\<close>

theorem C1_one_failure:
  "parse ''[[+]'' = Inl BadBf \<and> parse ''+]'' = Inl BadBf \<and> parse ''[[+]'' = parse ''+]''"
  by code_simp

text \<open>
  C1 (amended): \<^verbatim>\<open>parse\<close> succeeds if and only if the brackets of the source text are
  balanced and properly nested, and every other text fails through \<^verbatim>\<open>crash_bad_bf\<close>,
  the one failure of the builder. The scan itself fails (in \<^verbatim>\<open>blocks_pop\<close>) exactly when
  some prefix closes more loops than it opened; when the scan ends, the loops still
  open are the surplus of \<^verbatim>\<open>[\<close> over \<^verbatim>\<open>]\<close>, which the final test rejects when it is not zero.
\<close>

theorem C1_parse_balanced:
  "((\<exists>hp. parse s = Inr hp) \<longleftrightarrow> balanced s)
   \<and> (\<not> balanced s \<longrightarrow> parse s = Inl BadBf)
   \<and> ((\<exists>e. parse_loop s parse_init = Inl e)
        \<longleftrightarrow> (\<exists>n \<le> length s. opens (take n s) < closes (take n s)))
   \<and> (\<forall>st. parse_loop s parse_init = Inr st \<longrightarrow> length (unclosed st) + closes s = opens s)"
proof (cases "parse_loop s parse_init")
  case (Inl e)
  from parse_loop_Inl [OF Inl] obtain n where n: "e = BadBf" "n \<le> length s"
    "opens (take n s) < closes (take n s)" by (auto simp: parse_init_def)
  then have "\<not> balanced s" by (auto simp: balanced_iff not_le)
  with Inl n show ?thesis by (auto simp: parse_def)
next
  case (Inr st)
  from parse_loop_Inr [OF Inr]
  have d: "length (unclosed st) + closes s = opens s"
    and p: "\<forall>n \<le> length s. closes (take n s) \<le> opens (take n s)"
    by (simp_all add: parse_init_def)
  from p have np: "\<not> (\<exists>n \<le> length s. opens (take n s) < closes (take n s))"
    by (auto simp: not_less)
  show ?thesis
  proof (cases "unclosed st = []")
    case True
    with d p have "balanced s" by (simp add: balanced_iff)
    with Inr True d np show ?thesis by (simp add: parse_def)
  next
    case False
    with d have "closes s \<noteq> opens s" by auto
    then have "\<not> balanced s" by (simp add: balanced_iff)
    with Inr False d np show ?thesis by (simp add: parse_def)
  qed
qed

theorem C1_parse_balanced_witness:
  "\<not> balanced ''[[+]'' \<and> parse ''[[+]'' = Inl BadBf
   \<and> balanced ''[+]''
   \<and> parse ''[+]'' = Inr [\<lparr>next = Some 1, exit = None, ops = []\<rparr>,
                          \<lparr>next = None, exit = Some 2, ops = [OpInc 1]\<rparr>,
                          \<lparr>next = None, exit = None, ops = []\<rparr>]"
proof -
  have n: "\<not> balanced ''[[+]''" by code_simp
  have b: "balanced ''[+]''" by code_simp
  from n C1_parse_balanced [of "''[[+]''"] have "parse ''[[+]'' = Inl BadBf" by blast
  moreover have "parse ''[+]'' = Inr [\<lparr>next = Some 1, exit = None, ops = []\<rparr>,
                          \<lparr>next = None, exit = Some 2, ops = [OpInc 1]\<rparr>,
                          \<lparr>next = None, exit = None, ops = []\<rparr>]"
    by code_simp
  ultimately show ?thesis using n b by simp
qed

lemma op_tag_simps [simp]:
  "op_tag (OpInc v) = 0" "op_tag (OpShift i) = 1" "op_tag OpRead = 2" "op_tag OpWrite = 3"
  by (simp_all add: op_tag_def)

lemma set_cur_ops_same:
  "cur st < length (heap st) \<Longrightarrow> set_cur_ops st (ops (heap st ! cur st)) = st"
  by (simp add: set_cur_ops_def)

lemma set_cur_ops_fields [simp]:
  "cur (set_cur_ops st xs) = cur st" "unclosed (set_cur_ops st xs) = unclosed st"
  "length (heap (set_cur_ops st xs)) = length (heap st)"
  by (simp_all add: set_cur_ops_def)

lemma set_cur_ops_ops [simp]:
  "cur st < length (heap st) \<Longrightarrow> ops (heap (set_cur_ops st xs) ! cur st) = xs"
  by (simp add: set_cur_ops_def)

lemma set_cur_ops_twice [simp]:
  "set_cur_ops (set_cur_ops st xs) ys = set_cur_ops st ys"
  by (cases "cur st < length (heap st)") (simp_all add: set_cur_ops_def list_update_beyond)

lemma block_append_op_as_update:
  "block_append_op b op = b\<lparr>ops := ops (block_append_op b op)\<rparr>"
  by (cases "last (ops b)"; cases op) (auto simp: block_append_op_def Let_def)

lemma parse_char_op:
  assumes "op_of_char c = Some op"
  shows "parse_char c st = Inr (set_cur_ops st (ops (block_append_op (heap st ! cur st) op)))"
proof -
  from assms have "c = CHR ''+'' \<or> c = CHR ''-'' \<or> c = CHR ''>'' \<or> c = CHR ''<''
         \<or> c = CHR ''.'' \<or> c = CHR '',''"
    by (auto simp: op_of_char_def split: if_splits)
  with assms show ?thesis
    unfolding parse_char_def set_cur_ops_def
    by (simp add: block_append_op_as_update [symmetric])
qed

lemma inc_step:
  assumes "ops b = base @ (if t = 0 then [] else [OpInc t])"
    and "base = [] \<or> op_tag (last base) \<noteq> 0" and "v \<noteq> 0"
  shows "ops (block_append_op b (OpInc v)) = base @ (if t + v = 0 then [] else [OpInc (t + v)])"
proof (cases "t = 0")
  case False
  with assms show ?thesis by (simp add: block_append_op_inc)
next
  case True
  show ?thesis
  proof (cases base rule: rev_cases)
    case Nil
    with True assms show ?thesis by (simp add: block_append_op_Nil)
  next
    case (snoc ys y)
    with assms(2) have "\<not> mergeable y (OpInc v)" by (simp add: mergeable_def)
    with snoc True assms show ?thesis by (simp add: block_append_op_other)
  qed
qed

lemma shift_step:
  assumes "ops b = base @ (if t = 0 then [] else [OpShift t])"
    and "base = [] \<or> op_tag (last base) \<noteq> 1" and "v \<noteq> 0" and "uint t < 3000" "uint v < 3000"
  shows "ops (block_append_op b (OpShift v)) =
           base @ (if word_of_int ((uint t + uint v) mod 3000) = (0 :: 16 word) then []
                   else [OpShift (word_of_int ((uint t + uint v) mod 3000))])"
proof (cases "t = 0")
  case False
  with assms show ?thesis by (simp add: block_append_op_shift shift_sum_no_wrap)
next
  case True
  with assms(5) have v: "word_of_int ((uint t + uint v) mod 3000) = v" by simp
  show ?thesis
  proof (cases base rule: rev_cases)
    case Nil
    with True assms v show ?thesis by (simp add: block_append_op_Nil)
  next
    case (snoc ys y)
    with assms(2) have "\<not> mergeable y (OpShift v)" by (simp add: mergeable_def)
    with snoc True assms v show ?thesis by (simp add: block_append_op_other)
  qed
qed

lemma inc_run:
  assumes "set r \<subseteq> {CHR ''+'', CHR ''-''}" "cur st < length (heap st)"
    and "ops (heap st ! cur st) = base @ (if t = 0 then [] else [OpInc t])"
    and "base = [] \<or> op_tag (last base) \<noteq> 0"
  shows "parse_loop r st =
           Inr (set_cur_ops st (base @
             (if t + (word_of_nat (count_list r CHR ''+'') - word_of_nat (count_list r CHR ''-'')) = 0 then []
              else [OpInc (t + (word_of_nat (count_list r CHR ''+'') - word_of_nat (count_list r CHR ''-'')))])))"
  using assms
proof (induction r arbitrary: st t)
  case Nil
  have "set_cur_ops st (base @ (if t = 0 then [] else [OpInc t])) = st"
    using set_cur_ops_same [OF Nil(2)] by (simp only: Nil(3))
  then show ?case by (simp split del: if_split cong: if_cong)
next
  case (Cons c r)
  from Cons.prems(1) have c: "c = CHR ''+'' \<or> c = CHR ''-''" and r: "set r \<subseteq> {CHR ''+'', CHR ''-''}"
    by simp_all
  define v :: "8 word" where "v = (if c = CHR ''+'' then 1 else 255)"
  have v0: "v \<noteq> 0" by (simp add: v_def)
  from c have oc: "op_of_char c = Some (OpInc v)" by (auto simp: op_of_char_def v_def)
  let ?st1 = "set_cur_ops st (ops (block_append_op (heap st ! cur st) (OpInc v)))"
  have step: "parse_char c st = Inr ?st1" by (rule parse_char_op [OF oc])
  have ops1: "ops (heap ?st1 ! cur ?st1) = base @ (if t + v = 0 then [] else [OpInc (t + v)])"
    using inc_step [OF Cons.prems(3,4) v0] Cons.prems(2) by simp
  define n' :: "8 word" where
    "n' = word_of_nat (count_list r CHR ''+'') - word_of_nat (count_list r CHR ''-'')"
  define n :: "8 word" where
    "n = word_of_nat (count_list (c # r) CHR ''+'') - word_of_nat (count_list (c # r) CHR ''-'')"
  have eq: "t + v + n' = t + n"
    using c by (auto simp: n_def n'_def v_def)
  have "parse_loop r ?st1 =
          Inr (set_cur_ops ?st1 (base @ (if t + v + n' = 0 then [] else [OpInc (t + v + n')])))"
    unfolding n'_def
    by (rule Cons.IH [OF r _ ops1 Cons.prems(4)]) (simp add: Cons.prems(2))
  then have "parse_loop r ?st1 =
          Inr (set_cur_ops st (base @ (if t + n = 0 then [] else [OpInc (t + n)])))"
    unfolding eq set_cur_ops_twice .
  with step show ?case
    unfolding n_def by (simp only: parse_loop.simps sum.case)
qed

lemma uint_shift_tail:
  fixes t v :: "16 word"
  assumes "uint t < 3000" "uint v < 3000"
  shows "uint (word_of_int ((uint t + uint v) mod 3000) :: 16 word) = (uint t + uint v) mod 3000"
  using shift_merge_uint [OF assms] assms by (simp add: shift_sum_no_wrap)

lemma shift_run:
  assumes "set r \<subseteq> {CHR ''>'', CHR ''<''}" "cur st < length (heap st)"
    and "ops (heap st ! cur st) = base @ (if t = 0 then [] else [OpShift t])"
    and "base = [] \<or> op_tag (last base) \<noteq> 1" and "uint t < 3000"
  shows "parse_loop r st =
           Inr (set_cur_ops st (base @
             (if word_of_int ((uint t + int (count_list r CHR ''>'') - int (count_list r CHR ''<'')) mod 3000)
                   = (0 :: 16 word) then []
              else [OpShift (word_of_int
                      ((uint t + int (count_list r CHR ''>'') - int (count_list r CHR ''<'')) mod 3000))])))"
  using assms
proof (induction r arbitrary: st t)
  case Nil
  have "set_cur_ops st (base @ (if t = 0 then [] else [OpShift t])) = st"
    using set_cur_ops_same [OF Nil(2)] by (simp only: Nil(3))
  with Nil(5) show ?case by (simp split del: if_split cong: if_cong)
next
  case (Cons c r)
  from Cons.prems(1) have c: "c = CHR ''>'' \<or> c = CHR ''<''" and r: "set r \<subseteq> {CHR ''>'', CHR ''<''}"
    by simp_all
  define v :: "16 word" where "v = (if c = CHR ''>'' then 1 else 2999)"
  have v0: "v \<noteq> 0" and v3: "uint v < 3000" by (simp_all add: v_def)
  from c have oc: "op_of_char c = Some (OpShift v)"
    by (auto simp: op_of_char_def v_def BF_MEMORY_SIZE_def)
  define t1 :: "16 word" where "t1 = word_of_int ((uint t + uint v) mod 3000)"
  have ut1: "uint t1 = (uint t + uint v) mod 3000"
    unfolding t1_def by (rule uint_shift_tail [OF Cons.prems(5) v3])
  then have t13: "uint t1 < 3000" by simp
  let ?st1 = "set_cur_ops st (ops (block_append_op (heap st ! cur st) (OpShift v)))"
  have step: "parse_char c st = Inr ?st1" by (rule parse_char_op [OF oc])
  have ops1: "ops (heap ?st1 ! cur ?st1) = base @ (if t1 = 0 then [] else [OpShift t1])"
    using shift_step [OF Cons.prems(3,4) v0 Cons.prems(5) v3] Cons.prems(2)
    by (simp add: t1_def)
  define k' :: int where
    "k' = (uint t1 + int (count_list r CHR ''>'') - int (count_list r CHR ''<'')) mod 3000"
  define k :: int where
    "k = (uint t + int (count_list (c # r) CHR ''>'') - int (count_list (c # r) CHR ''<'')) mod 3000"
  have eq: "k' = k"
  proof -
    let ?P = "int (count_list r CHR ''>'')" and ?M = "int (count_list r CHR ''<'')"
    have "k' = ((uint t + uint v) mod 3000 + (?P - ?M)) mod 3000"
      unfolding k'_def ut1 by (simp add: algebra_simps)
    also have "\<dots> = (uint t + uint v + (?P - ?M)) mod 3000"
      by (simp only: mod_add_left_eq)
    finally have 1: "k' = (uint t + uint v + ?P - ?M) mod 3000"
      by (simp add: algebra_simps)
    show ?thesis
    proof (cases "c = CHR ''>''")
      case True
      then have "uint t + uint v + ?P - ?M
          = uint t + int (count_list (c # r) CHR ''>'') - int (count_list (c # r) CHR ''<'')"
        by (simp add: v_def)
      with 1 show ?thesis by (simp only: k_def)
    next
      case False
      with c have "uint t + uint v + ?P - ?M
          = (uint t + int (count_list (c # r) CHR ''>'') - int (count_list (c # r) CHR ''<'')) + 3000"
        by (simp add: v_def)
      with 1 show ?thesis by (simp only: k_def mod_add_self2)
    qed
  qed
  have "parse_loop r ?st1 =
          Inr (set_cur_ops ?st1 (base @ (if word_of_int k' = (0 :: 16 word) then [] else [OpShift (word_of_int k')])))"
    unfolding k'_def
    by (rule Cons.IH [OF r _ ops1 Cons.prems(4) t13]) (simp add: Cons.prems(2))
  then have "parse_loop r ?st1 =
          Inr (set_cur_ops st (base @ (if word_of_int k = (0 :: 16 word) then [] else [OpShift (word_of_int k)])))"
    unfolding eq set_cur_ops_twice .
  with step show ?case
    unfolding k_def by (simp only: parse_loop.simps sum.case)
qed

lemma ops_wf_inc_tail:
  assumes "ops_wf xs"
  obtains base t where "xs = base @ (if t = 0 then [] else [OpInc t])"
    and "base = [] \<or> op_tag (last base) \<noteq> 0"
proof (cases xs rule: rev_cases)
  case Nil
  then show ?thesis using that [of "[]" 0] by simp
next
  case (snoc ys y)
  show ?thesis
  proof (cases y)
    case (OpInc a)
    with snoc assms have "a \<noteq> 0" "ys = [] \<or> op_tag (last ys) \<noteq> 0"
      by (auto simp: ops_wf_snoc mergeable_def)
    with snoc OpInc show ?thesis using that [of ys a] by simp
  qed (use snoc that [of xs 0] in simp_all)
qed

lemma ops_wf_shift_tail:
  assumes "ops_wf xs"
  obtains base t where "xs = base @ (if t = 0 then [] else [OpShift t])"
    and "base = [] \<or> op_tag (last base) \<noteq> 1" and "uint t < 3000"
proof (cases xs rule: rev_cases)
  case Nil
  then show ?thesis using that [of "[]" 0] by simp
next
  case (snoc ys y)
  show ?thesis
  proof (cases y)
    case (OpShift a)
    with snoc assms have "a \<noteq> 0" "uint a < 3000" "ys = [] \<or> op_tag (last ys) \<noteq> 1"
      by (auto simp: ops_wf_snoc mergeable_def)
    with snoc OpShift show ?thesis using that [of ys a] by simp
  qed (use snoc that [of xs 0] in simp_all)
qed

lemma zero_run_state:
  assumes "pstate_wf st"
    and "(set r \<subseteq> {CHR ''+'', CHR ''-''}
           \<and> (int (count_list r CHR ''+'') - int (count_list r CHR ''-'')) mod 256 = 0)
         \<or> (set r \<subseteq> {CHR ''>'', CHR ''<''}
           \<and> (int (count_list r CHR ''>'') - int (count_list r CHR ''<'')) mod BF_MEMORY_SIZE = 0)"
  shows "parse_loop r st = Inr st"
proof -
  from assms(1) have cur: "cur st < length (heap st)" and wf: "ops_wf (ops (heap st ! cur st))"
    by (auto simp: pstate_wf_def list_all_length)
  from assms(2) show ?thesis
  proof
    assume h: "set r \<subseteq> {CHR ''+'', CHR ''-''}
           \<and> (int (count_list r CHR ''+'') - int (count_list r CHR ''-'')) mod 256 = 0"
    from wf obtain base t where bt: "ops (heap st ! cur st) = base @ (if t = 0 then [] else [OpInc t])"
      "base = [] \<or> op_tag (last base) \<noteq> 0" by (rule ops_wf_inc_tail)
    have "(word_of_nat (count_list r CHR ''+'') - word_of_nat (count_list r CHR ''-'') :: 8 word)
        = word_of_int (int (count_list r CHR ''+'') - int (count_list r CHR ''-''))"
      by simp
    also have "\<dots> = 0"
    proof -
      from h have "2 ^ LENGTH(8) dvd int (count_list r CHR ''+'') - int (count_list r CHR ''-'')"
        by (simp add: mod_eq_0_iff_dvd)
      then show ?thesis by (simp only: word_of_int_eq_0_iff)
    qed
    finally have z: "(word_of_nat (count_list r CHR ''+'') - word_of_nat (count_list r CHR ''-'') :: 8 word) = 0" .
    have "parse_loop r st = Inr (set_cur_ops st (base @ (if t = 0 then [] else [OpInc t])))"
      using inc_run [OF conjunct1 [OF h] cur bt] unfolding z by simp
    then show ?thesis
      using set_cur_ops_same [OF cur] by (simp only: bt(1))
  next
    assume h: "set r \<subseteq> {CHR ''>'', CHR ''<''}
           \<and> (int (count_list r CHR ''>'') - int (count_list r CHR ''<'')) mod BF_MEMORY_SIZE = 0"
    from wf obtain base t where bt: "ops (heap st ! cur st) = base @ (if t = 0 then [] else [OpShift t])"
      "base = [] \<or> op_tag (last base) \<noteq> 1" "uint t < 3000" by (rule ops_wf_shift_tail)
    define d where "d = int (count_list r CHR ''>'') - int (count_list r CHR ''<'')"
    from h have d0: "d mod 3000 = 0" by (simp add: d_def BF_MEMORY_SIZE_def)
    have "(uint t + d) mod 3000 = (uint t + d mod 3000) mod 3000"
      by (simp only: mod_add_right_eq)
    with d0 bt(3) have "(uint t + d) mod 3000 = uint t" by simp
    then have "(uint t + int (count_list r CHR ''>'') - int (count_list r CHR ''<'')) mod 3000 = uint t"
      by (simp add: d_def algebra_simps)
    then have z: "word_of_int ((uint t + int (count_list r CHR ''>'') - int (count_list r CHR ''<'')) mod 3000) = t"
      by simp
    have "parse_loop r st = Inr (set_cur_ops st (base @ (if t = 0 then [] else [OpShift t])))"
      using shift_run [OF conjunct1 [OF h] cur bt] unfolding z .
    then show ?thesis
      using set_cur_ops_same [OF cur] by (simp only: bt(1))
  qed
qed

text \<open>
  C8: a run of \<^verbatim>\<open>+\<close> and \<^verbatim>\<open>-\<close> whose net count is 0 modulo 256, or of \<^verbatim>\<open>>\<close> and \<^verbatim>\<open><\<close> whose
  net count is 0 modulo the memory size, leaves the state of the builder as it found
  it, wherever in the source text it stands: the text with the run and the text
  without it build the same program (or fail alike).
\<close>

theorem C8_zero_run:
  assumes "(set r \<subseteq> {CHR ''+'', CHR ''-''}
             \<and> (int (count_list r CHR ''+'') - int (count_list r CHR ''-'')) mod 256 = 0)
           \<or> (set r \<subseteq> {CHR ''>'', CHR ''<''}
             \<and> (int (count_list r CHR ''>'') - int (count_list r CHR ''<'')) mod BF_MEMORY_SIZE = 0)"
  shows "parse_loop (pre @ r) parse_init = parse_loop pre parse_init
         \<and> parse (pre @ r @ post) = parse (pre @ post)"
proof (cases "parse_loop pre parse_init")
  case (Inl e)
  then show ?thesis by (simp add: parse_def parse_loop_append)
next
  case (Inr st)
  then have "pstate_wf st" by (rule pstate_wf_parse_loop [OF pstate_wf_init])
  then have "parse_loop r st = Inr st" using assms by (rule zero_run_state)
  with Inr show ?thesis by (simp add: parse_def parse_loop_append)
qed

theorem C8_zero_run_witness:
  "parse (''+['' @ ''-+-++-'' @ '']'') = parse (''+['' @ '']'')
   \<and> parse (''.>'' @ ''<><>'' @ ''>.'') = parse (''.>'' @ ''>.'')
   \<and> parse (''.>'' @ ''>.'') = Inr [\<lparr>next = None, exit = None, ops = [OpWrite, OpShift 2, OpWrite]\<rparr>]"
proof -
  have a: "(set ''-+-++-'' \<subseteq> {CHR ''+'', CHR ''-''}
             \<and> (int (count_list ''-+-++-'' CHR ''+'') - int (count_list ''-+-++-'' CHR ''-'')) mod 256 = 0)
           \<or> (set ''-+-++-'' \<subseteq> {CHR ''>'', CHR ''<''}
             \<and> (int (count_list ''-+-++-'' CHR ''>'') - int (count_list ''-+-++-'' CHR ''<'')) mod BF_MEMORY_SIZE = 0)"
    by simp
  have b: "(set ''<><>'' \<subseteq> {CHR ''+'', CHR ''-''}
             \<and> (int (count_list ''<><>'' CHR ''+'') - int (count_list ''<><>'' CHR ''-'')) mod 256 = 0)
           \<or> (set ''<><>'' \<subseteq> {CHR ''>'', CHR ''<''}
             \<and> (int (count_list ''<><>'' CHR ''>'') - int (count_list ''<><>'' CHR ''<'')) mod BF_MEMORY_SIZE = 0)"
    by (simp add: BF_MEMORY_SIZE_def)
  have c: "parse (''.>'' @ ''>.'') = Inr [\<lparr>next = None, exit = None, ops = [OpWrite, OpShift 2, OpWrite]\<rparr>]"
    by code_simp
  from C8_zero_run [OF a, of "''+[''" "'']''"] C8_zero_run [OF b, of "''.>''" "''>.''"] c
  show ?thesis by (simp only: simp_thms)
qed

lemma and_then_Done [simp]: "f fl = (Done, file') \<Longrightarrow> and_then f g fl = g file'"
  by (simp add: and_then_def)

lemma and_then_assoc: "and_then (and_then f g) h = and_then f (and_then g h)"
  by (rule ext) (auto simp: and_then_def split: prod.splits)

lemma and_then_skip [simp]: "and_then skip g = g" "and_then f skip = f"
  by (rule ext; auto simp: and_then_def skip_def split: prod.splits)+

lemma write_calls_Nil [simp]: "write_calls [] = skip"
  by (rule ext) (simp add: skip_def)

lemma write_calls_single [simp]: "write_calls [s] = fprintf s"
  by (rule ext) (simp add: and_then_def split: prod.splits)

lemma write_calls_append: "write_calls (xs @ ys) = and_then (write_calls xs) (write_calls ys)"
proof (induction xs)
  case Nil
  show ?case by simp
next
  case (Cons x xs)
  have "write_calls ((x # xs) @ ys) = and_then (fprintf x) (write_calls (xs @ ys))"
    by (rule ext) simp
  also have "\<dots> = and_then (and_then (fprintf x) (write_calls xs)) (write_calls ys)"
    by (simp only: Cons.IH and_then_assoc)
  also have "and_then (fprintf x) (write_calls xs) = write_calls (x # xs)"
    by (rule ext) simp
  finally show ?case .
qed

lemma writes_fprintf [simp]: "writes (fprintf s) [s]"
  by (simp add: writes_def)

lemma writes_skip [simp]: "writes skip []"
  by (simp add: writes_def)

lemma writes_and_then: "writes f xs \<Longrightarrow> writes g ys \<Longrightarrow> writes (and_then f g) (xs @ ys)"
  by (simp add: writes_def write_calls_append)

lemma writes_fprintf_times [simp]: "writes (fprintf_times n s) (replicate n s)"
proof (induction n)
  case 0
  show ?case unfolding writes_def by (rule ext) (simp add: skip_def)
next
  case (Suc n)
  then show ?case unfolding writes_def by (intro ext) simp
qed

lemma writes_print_tab [simp]: "writes (print_tab n) (replicate n ''    '')"
  by (simp add: print_tab_def)

lemma reliable_fprintf:
  "reliable fl \<Longrightarrow> fprintf s fl = (Done, wrote [s] fl) \<and> reliable (wrote [s] fl)"
  by (simp add: reliable_def fprintf_def wrote_def)

lemma wrote_wrote: "wrote ys (wrote xs fl) = wrote (xs @ ys) fl"
  by (simp add: wrote_def)

lemma wrote_Nil [simp]: "wrote [] fl = fl"
  by (simp add: wrote_def)

lemma reliable_wrote [simp]: "reliable (wrote ws fl) = reliable fl"
  by (simp add: reliable_def wrote_def)

lemma reliable_write_calls:
  "reliable fl \<Longrightarrow> write_calls ws fl = (Done, wrote ws fl)"
proof (induction ws arbitrary: fl)
  case Nil
  show ?case by (simp add: skip_def)
next
  case (Cons s ss)
  from reliable_fprintf [OF Cons.prems, of s] Cons.IH [of "wrote [s] fl"]
  show ?case by (simp add: wrote_wrote)
qed

lemma writes_reliable:
  "writes e ws \<Longrightarrow> reliable fl \<Longrightarrow> e fl = (Done, wrote ws fl)"
  by (simp add: writes_def reliable_write_calls)

lemma reliable_fresh [simp]: "reliable fresh_file"
  by (simp add: reliable_def fresh_file_def)

lemma writes_emit_op_inc_bf:
  "writes (emit_op_inc v d TARGET_BF)
     (replicate d ''    '' @ replicate (nat (inc_signed_count v)) ''+''
        @ replicate (nat (- inc_signed_count v)) ''-'' @ [''\<newline>''])"
  unfolding emit_op_inc_def Let_def
  by (auto intro!: writes_and_then)

lemma writes_emit_op_shift_bf:
  "writes (emit_op_shift i d TARGET_BF)
     (replicate d ''    '' @ replicate (nat (shift_signed_count i)) ''>''
        @ replicate (nat (- shift_signed_count i)) ''<'' @ [''\<newline>''])"
  unfolding emit_op_shift_def Let_def
  by (auto intro!: writes_and_then)

lemma concat_replicate_single [simp]: "concat (replicate n [c]) = replicate n c"
  by (induction n) simp_all

lemma concat_replicate_tab [simp]: "concat (replicate n ''    '') = replicate (4 * n) CHR '' ''"
proof (induction n)
  case 0
  show ?case by simp
next
  case (Suc n)
  have "4 * Suc n = Suc (Suc (Suc (Suc (4 * n))))" by simp
  with Suc show ?case by (simp del: mult_Suc_right)
qed

text \<open>
  C4: on the normalized-source target an increment above 128 is printed as
  \<open>256 - v\<close> characters \<^verbatim>\<open>-\<close>, fewer than the \<open>v\<close> characters \<^verbatim>\<open>+\<close> of the other direction,
  and a shift above half the memory size (and below the memory size) as
  \<^verbatim>\<open>BF_MEMORY_SIZE\<close>\<open> - i\<close> characters \<^verbatim>\<open><\<close>, fewer than \<open>i\<close>; the line is indented by four
  spaces per level and ends with a newline.
\<close>

theorem C4_shorter_direction:
  assumes "reliable fl"
  shows "(128 < uint v \<longrightarrow>
            fst (emit_op_inc v d TARGET_BF fl) = Done
            \<and> written (snd (emit_op_inc v d TARGET_BF fl))
                = written fl @ replicate (4 * d) CHR '' ''
                    @ replicate (nat (256 - uint v)) CHR ''-'' @ ''\<newline>''
            \<and> nat (256 - uint v) < nat (uint v))
         \<and> (BF_MEMORY_SIZE div 2 < uint i \<and> uint i < BF_MEMORY_SIZE \<longrightarrow>
            fst (emit_op_shift i d TARGET_BF fl) = Done
            \<and> written (snd (emit_op_shift i d TARGET_BF fl))
                = written fl @ replicate (4 * d) CHR '' ''
                    @ replicate (nat (BF_MEMORY_SIZE - uint i)) CHR ''<'' @ ''\<newline>''
            \<and> nat (BF_MEMORY_SIZE - uint i) < nat (uint i))"
proof (intro conjI impI)
  assume v: "128 < uint v"
  then have c: "inc_signed_count v = - (256 - uint v)"
    by (simp add: inc_signed_count_def Let_def)
  have "uint v < 256" using uint_lt2p [of v] by simp
  with v have n: "nat (inc_signed_count v) = 0" "nat (- inc_signed_count v) = nat (256 - uint v)"
    by (simp_all add: c)
  from writes_reliable [OF writes_emit_op_inc_bf assms, of v d]
  show "fst (emit_op_inc v d TARGET_BF fl) = Done"
    and "written (snd (emit_op_inc v d TARGET_BF fl))
                = written fl @ replicate (4 * d) CHR '' ''
                    @ replicate (nat (256 - uint v)) CHR ''-'' @ ''\<newline>''"
    by (simp_all add: n wrote_def)
  from v show "nat (256 - uint v) < nat (uint v)" by arith
next
  assume i: "BF_MEMORY_SIZE div 2 < uint i \<and> uint i < BF_MEMORY_SIZE"
  then have c: "shift_signed_count i = - (BF_MEMORY_SIZE - uint i)"
    by (simp add: shift_signed_count_def Let_def)
  with i have n: "nat (shift_signed_count i) = 0"
      "nat (- shift_signed_count i) = nat (BF_MEMORY_SIZE - uint i)"
    by (simp_all add: c)
  from writes_reliable [OF writes_emit_op_shift_bf assms, of i d]
  show "fst (emit_op_shift i d TARGET_BF fl) = Done"
    and "written (snd (emit_op_shift i d TARGET_BF fl))
                = written fl @ replicate (4 * d) CHR '' ''
                    @ replicate (nat (BF_MEMORY_SIZE - uint i)) CHR ''<'' @ ''\<newline>''"
    by (simp_all add: n wrote_def)
  from i show "nat (BF_MEMORY_SIZE - uint i) < nat (uint i)"
    unfolding BF_MEMORY_SIZE_def by arith
qed

theorem C4_shorter_direction_witness:
  "reliable fresh_file
   \<and> written (snd (emit_op_inc 200 0 TARGET_BF fresh_file)) = replicate 56 CHR ''-'' @ ''\<newline>''
   \<and> written (snd (emit_op_shift 2999 0 TARGET_BF fresh_file)) = ''<\<newline>''
   \<and> written (snd (emit_op_shift 2990 1 TARGET_BF fresh_file))
       = replicate 4 CHR '' '' @ replicate 10 CHR ''<'' @ ''\<newline>''"
proof -
  have r: "reliable fresh_file" by simp
  have "written (snd (emit_op_inc 200 0 TARGET_BF fresh_file)) = replicate 56 CHR ''-'' @ ''\<newline>''"
    using C4_shorter_direction [OF r, where v = 200 and d = 0] by (simp add: fresh_file_def)
  moreover have "written (snd (emit_op_shift 2999 0 TARGET_BF fresh_file)) = ''<\<newline>''"
    using C4_shorter_direction [OF r, where i = 2999 and d = 0] by (simp add: fresh_file_def BF_MEMORY_SIZE_def)
  moreover have "written (snd (emit_op_shift 2990 1 TARGET_BF fresh_file))
       = replicate 4 CHR '' '' @ replicate 10 CHR ''<'' @ ''\<newline>''"
    using C4_shorter_direction [OF r, where i = 2990 and d = 1]
    by (simp add: fresh_file_def BF_MEMORY_SIZE_def)
  ultimately show ?thesis using r by simp
qed

text \<open>
  C5, as the code has it. The builder takes no memory size: \<^verbatim>\<open>BF_MEMORY_SIZE\<close> is the
  constant 3000, so the \<^verbatim>\<open><\<close> of \<^verbatim>\<open>++[>+<-]\<close> is stored as a shift by 2999 and the program
  with a shift by 3 is not the one that is built.
\<close>

theorem C5_not_memory_size_4:
  "parse ''++[>+<-]'' \<noteq>
     Inr [\<lparr>next = Some 1, exit = None, ops = [OpInc 2]\<rparr>,
          \<lparr>next = None, exit = Some 2, ops = [OpShift 1, OpInc 1, OpShift 3, OpInc 255]\<rparr>,
          \<lparr>next = None, exit = None, ops = []\<rparr>]"
  by code_simp

text \<open>
  C5 (amended): with the memory size 3000 of the code, \<^verbatim>\<open>++[>+<-]\<close> builds a root block
  holding the single operation Increment(2), whose \<^verbatim>\<open>next\<close> is the loop header with the
  operations Shift(1), Increment(1), Shift(2999), Increment(255), whose \<^verbatim>\<open>exit\<close> is an
  empty last block; the normalized-source target prints it as the seven lines
  \<^verbatim>\<open>++\<close>, \<^verbatim>\<open>[\<close>, four indented operations and \<^verbatim>\<open>]\<close>.
\<close>

theorem C5_example:
  "parse ''++[>+<-]'' =
     Inr [\<lparr>next = Some 1, exit = None, ops = [OpInc 2]\<rparr>,
          \<lparr>next = None, exit = Some 2, ops = [OpShift 1, OpInc 1, OpShift 2999, OpInc 255]\<rparr>,
          \<lparr>next = None, exit = None, ops = []\<rparr>]
   \<and> map_option (\<lambda>(r, w, fl). (r, w, written fl))
        (emit_code fmt_p
          [\<lparr>next = Some 1, exit = None, ops = [OpInc 2]\<rparr>,
           \<lparr>next = None, exit = Some 2, ops = [OpShift 1, OpInc 1, OpShift 2999, OpInc 255]\<rparr>,
           \<lparr>next = None, exit = None, ops = []\<rparr>] 0 TARGET_BF fresh_file)
      = Some (Done, \<lparr>blk = 2, layer = 0, loops = [], visited = [0, 1, 2]\<rparr>,
              ''++\<newline>[\<newline>    >\<newline>    +\<newline>    <\<newline>    -\<newline>]\<newline>'')"
  by code_simp

lemma text_of_fprintf [simp]: "text_of (fprintf s) = s"
  by (simp add: text_of_def fprintf_def fresh_file_def)

lemma writes_emit_op:
  assumes "tgt \<noteq> TARGET_NOT_SELECTED"
  shows "writes (emit_op op d tgt) (op_calls op d tgt)"
proof (cases "tgt = TARGET_BF")
  case True
  show ?thesis
  proof (cases op)
    case (OpInc v)
    with True writes_emit_op_inc_bf [of v d] show ?thesis
      by (simp add: emit_op_def op_calls_def)
  next
    case (OpShift i)
    with True writes_emit_op_shift_bf [of i d] show ?thesis
      by (simp add: emit_op_def op_calls_def)
  next
    case OpRead
    with True show ?thesis
      by (auto simp: emit_op_def op_calls_def emit_op_read_def intro!: writes_and_then)
  next
    case OpWrite
    with True show ?thesis
      by (auto simp: emit_op_def op_calls_def emit_op_write_def intro!: writes_and_then)
  qed
next
  case False
  with assms have "\<exists>s. emit_op op d tgt = fprintf s"
    by (cases tgt; cases op)
      (auto simp add: emit_op_def emit_op_inc_def emit_op_shift_def emit_op_read_def emit_op_write_def)
  then obtain s where "emit_op op d tgt = fprintf s" ..
  with False show ?thesis by (simp add: op_calls_def)
qed

lemma writes_emit_ops:
  assumes "tgt \<noteq> TARGET_NOT_SELECTED"
  shows "writes (emit_ops items d tgt) (ops_calls items d tgt)"
proof (induction items)
  case Nil
  show ?case unfolding writes_def ops_calls_def by (rule ext) (simp add: skip_def)
next
  case (Cons op items)
  have "emit_ops (op # items) d tgt = and_then (emit_op op d tgt) (emit_ops items d tgt)"
    by (rule ext) simp
  moreover have "ops_calls (op # items) d tgt = op_calls op d tgt @ ops_calls items d tgt"
    by (simp add: ops_calls_def)
  ultimately show ?case
    using writes_and_then [OF writes_emit_op [OF assms] Cons.IH] by simp
qed

lemma writes_emit_loop_head:
  assumes "tgt \<noteq> TARGET_NOT_SELECTED"
  shows "writes (emit_loop_head fmt_p k d tgt) (head_calls fmt_p k d tgt)"
  using assms
  by (cases tgt) (auto simp: emit_loop_head_def head_calls_def intro!: writes_and_then)

lemma writes_emit_loop_tail:
  assumes "tgt \<noteq> TARGET_NOT_SELECTED"
  shows "writes (emit_loop_tail fmt_p k d tgt) (tail_calls fmt_p k d tgt)"
  using assms
  by (cases tgt) (auto simp: emit_loop_tail_def tail_calls_def intro!: writes_and_then)

lemma writes_emit_file_head:
  assumes "tgt \<noteq> TARGET_NOT_SELECTED"
  shows "writes (emit_file_head tgt) (file_head_calls tgt)"
  using assms by (cases tgt) (auto simp: emit_file_head_def file_head_calls_def)

lemma writes_emit_file_tail:
  assumes "tgt \<noteq> TARGET_NOT_SELECTED"
  shows "writes (emit_file_tail tgt) (file_tail_calls tgt)"
  using assms by (cases tgt) (auto simp: emit_file_tail_def file_tail_calls_def)

lemma write_calls_status: "fst (write_calls ws fl) = Done \<or> fst (write_calls ws fl) = WriteFailed"
proof (induction ws arbitrary: fl)
  case Nil
  show ?case by (simp add: skip_def)
next
  case (Cons s ss)
  show ?case
  proof (cases "accepts fl (calls fl)")
    case True
    then have "fprintf s fl = (Done, fl\<lparr>written := written fl @ s, calls := Suc (calls fl)\<rparr>)"
      by (simp add: fprintf_def)
    with Cons.IH show ?thesis by simp
  next
    case False
    then show ?thesis by (simp add: fprintf_def and_then_def)
  qed
qed

lemma after_writes_Nil: "after_writes [] f f"
  by (simp add: after_writes_def skip_def)

lemma after_writes_trans:
  assumes "after_writes xs f g" "after_writes ys g h"
  shows "after_writes (xs @ ys) f h"
  unfolding after_writes_def
proof
  fix fl
  obtain r fl1 where 1: "write_calls xs fl = (r, fl1)" by (cases "write_calls xs fl")
  from assms(1) have a: "case write_calls xs fl of
          (r, fl') \<Rightarrow> if r = Done then f fl = g fl' else outcome (f fl) = Some (r, fl')"
    unfolding after_writes_def by (rule spec)
  show "case write_calls (xs @ ys) fl of
          (r, fl') \<Rightarrow> if r = Done then f fl = h fl' else outcome (f fl) = Some (r, fl')"
  proof (cases "r = Done")
    case False
    with 1 a show ?thesis
      by (simp add: write_calls_append and_then_def)
  next
    case True
    with 1 a have "f fl = g fl1" by simp
    moreover from 1 True have "write_calls (xs @ ys) fl = write_calls ys fl1"
      by (simp add: write_calls_append)
    moreover from assms(2) have "case write_calls ys fl1 of
          (r, fl') \<Rightarrow> if r = Done then g fl1 = h fl' else outcome (g fl1) = Some (r, fl')"
      unfolding after_writes_def by (rule spec)
    ultimately show ?thesis by (simp split: prod.splits)
  qed
qed

lemma after_writes_bind:
  assumes "writes e ws"
    and "\<And>fl. f fl = (case e fl of (r, fl') \<Rightarrow> if r \<noteq> Done then Some (r, w0, fl') else g fl')"
  shows "after_writes ws f g"
  using assms by (auto simp: after_writes_def writes_def outcome_def split: prod.splits)

lemma emit_blocks_body:
  assumes tgt: "tgt \<noteq> TARGET_NOT_SELECTED" and k: "blk w < length hp"
  shows "after_writes (block_calls fmt_p tgt hp w) (emit_blocks fmt_p tgt hp w)
          (\<lambda>fl2. case next (hp ! blk w) of
                    None \<Rightarrow>
                      (case loops (entered hp w) of
                         [] \<Rightarrow> Some (Done, entered hp w, fl2)
                       | loop # rest \<Rightarrow>
                           (case emit_loop_tail fmt_p loop (layer (entered hp w)) tgt fl2 of
                              (r3, fl3) \<Rightarrow>
                                if r3 \<noteq> Done then Some (r3, (entered hp w)\<lparr>loops := rest\<rparr>, fl3)
                                else
                                  (case (if loop < length hp then exit (hp ! loop) else None) of
                                     None \<Rightarrow> Some (BadPointer, (entered hp w)\<lparr>loops := rest\<rparr>, fl3)
                                   | Some e \<Rightarrow>
                                       emit_blocks fmt_p tgt hp
                                         ((entered hp w)\<lparr>blk := e, loops := rest,
                                             layer := layer (entered hp w) - 1\<rparr>)
                                         fl3)))
                  | Some n \<Rightarrow> emit_blocks fmt_p tgt hp ((entered hp w)\<lparr>blk := n\<rparr>) fl2)"
    (is "after_writes _ _ ?F2")
proof -
  define w1 where "w1 = entered hp w"
  define F1 where "F1 = (\<lambda>fl1. case emit_ops (ops (hp ! blk w)) (layer w1) tgt fl1 of
              (r2, fl2) \<Rightarrow> if r2 \<noteq> Done then Some (r2, w1, fl2) else ?F2 fl2)"
  have ops: "after_writes (ops_calls (ops (hp ! blk w)) (layer w1) tgt) F1 ?F2"
    by (rule after_writes_bind [OF writes_emit_ops [OF tgt], where ?w0.0 = w1])
      (simp add: F1_def)
  show ?thesis
  proof (cases "exit (hp ! blk w) \<noteq> None")
    case True
    have "after_writes (head_calls fmt_p (blk w) (layer w) tgt) (emit_blocks fmt_p tgt hp w) F1"
    proof (rule after_writes_bind [OF writes_emit_loop_head [OF tgt], where ?w0.0 = w1])
      fix fl
      obtain r fl' where e: "emit_loop_head fmt_p (blk w) (layer w) tgt fl = (r, fl')"
        by (cases "emit_loop_head fmt_p (blk w) (layer w) tgt fl")
      show "emit_blocks fmt_p tgt hp w fl =
              (case emit_loop_head fmt_p (blk w) (layer w) tgt fl of
                 (r, fl') \<Rightarrow> if r \<noteq> Done then Some (r, w1, fl') else F1 fl')"
        using True k e
        by (subst emit_blocks.simps)
          (simp add: F1_def w1_def entered_def Let_def
             cong: if_cong option.case_cong list.case_cong prod.case_cong)
    qed
    from after_writes_trans [OF this ops] True show ?thesis
      by (simp add: block_calls_def w1_def)
  next
    case False
    have "emit_blocks fmt_p tgt hp w = F1"
    proof
      fix fl
      show "emit_blocks fmt_p tgt hp w fl = F1 fl"
        using False k
        by (subst emit_blocks.simps)
          (simp add: F1_def w1_def entered_def Let_def
             cong: if_cong option.case_cong list.case_cong prod.case_cong)
    qed
    with ops False show ?thesis
      by (simp add: block_calls_def w1_def)
  qed
qed

lemma emit_blocks_advance:
  assumes "tgt \<noteq> TARGET_NOT_SELECTED" "blk w < length hp" "next (hp ! blk w) = Some n"
  shows "after_writes (block_calls fmt_p tgt hp w) (emit_blocks fmt_p tgt hp w)
           (emit_blocks fmt_p tgt hp ((entered hp w)\<lparr>blk := n\<rparr>))"
  using emit_blocks_body [OF assms(1,2), of fmt_p] assms(3) by simp

lemma emit_blocks_finish:
  assumes "tgt \<noteq> TARGET_NOT_SELECTED" "blk w < length hp" "next (hp ! blk w) = None"
    and "loops (entered hp w) = []"
  shows "after_writes (block_calls fmt_p tgt hp w) (emit_blocks fmt_p tgt hp w)
           (\<lambda>fl. Some (Done, entered hp w, fl))"
  using emit_blocks_body [OF assms(1,2), of fmt_p] assms(3,4) by simp

lemma emit_blocks_close:
  assumes tgt: "tgt \<noteq> TARGET_NOT_SELECTED" and k: "blk w < length hp"
    and nx: "next (hp ! blk w) = None"
    and lp: "loops (entered hp w) = h # rest" and h: "h < length hp" and ex: "exit (hp ! h) = Some e"
  shows "after_writes (block_calls fmt_p tgt hp w @ tail_calls fmt_p h (layer (entered hp w)) tgt)
           (emit_blocks fmt_p tgt hp w)
           (emit_blocks fmt_p tgt hp
              ((entered hp w)\<lparr>blk := e, loops := rest, layer := layer (entered hp w) - 1\<rparr>))"
proof -
  let ?w1 = "entered hp w"
  let ?F2 = "\<lambda>fl2. case emit_loop_tail fmt_p h (layer ?w1) tgt fl2 of
               (r3, fl3) \<Rightarrow>
                 if r3 \<noteq> Done then Some (r3, ?w1\<lparr>loops := rest\<rparr>, fl3)
                 else emit_blocks fmt_p tgt hp
                        (?w1\<lparr>blk := e, loops := rest, layer := layer ?w1 - 1\<rparr>) fl3"
  have 1: "after_writes (block_calls fmt_p tgt hp w) (emit_blocks fmt_p tgt hp w) ?F2"
    using emit_blocks_body [OF tgt k, of fmt_p] nx lp h ex by (simp cong: if_cong)
  have 2: "after_writes (tail_calls fmt_p h (layer ?w1) tgt) ?F2
             (emit_blocks fmt_p tgt hp (?w1\<lparr>blk := e, loops := rest, layer := layer ?w1 - 1\<rparr>))"
    by (rule after_writes_bind [OF writes_emit_loop_tail [OF tgt]]) simp
  from after_writes_trans [OF 1 2] show ?thesis .
qed

lemma parse_char_open:
  "parse_char CHR ''['' st =
     Inr (st\<lparr>heap := (heap st)[cur st := (heap st ! cur st)\<lparr>next := Some (length (heap st))\<rparr>] @ [empty_block],
             cur := length (heap st), unclosed := length (heap st) # unclosed st\<rparr>)"
  by (simp add: parse_char_def Let_def)

lemma parse_char_close:
  "unclosed st = h # rest \<Longrightarrow>
   parse_char CHR '']'' st =
     Inr (st\<lparr>heap := (heap st)[h := (heap st ! h)\<lparr>exit := Some (length (heap st))\<rparr>] @ [empty_block],
             cur := length (heap st), unclosed := rest\<rparr>)"
  by (simp add: parse_char_def Let_def)

lemma parse_char_comment:
  "op_of_char c = None \<Longrightarrow> c \<noteq> CHR ''['' \<Longrightarrow> c \<noteq> CHR '']'' \<Longrightarrow> parse_char c st = Inr st"
  by (auto simp: parse_char_def op_of_char_def split: if_splits)

lemma op_of_char_bracket [simp]: "op_of_char CHR ''['' = None" "op_of_char CHR '']'' = None"
  by (simp_all add: op_of_char_def)

lemma agrees_final: "unclosed st = [] \<Longrightarrow> agrees st (heap st)"
  by (simp add: agrees_def)

lemma agrees_step:
  assumes wf: "pstate_wf st" and step: "parse_char c st = Inr st1" and ag: "agrees st1 hp"
  shows "agrees st hp"
proof -
  from wf have len: "Suc (cur st) = length (heap st)"
    and dist: "distinct (unclosed st)"
    and bound: "\<forall>h \<in> set (unclosed st). h \<le> cur st"
    by (simp_all add: pstate_wf_def list_all_iff)
  show ?thesis
  proof (cases "op_of_char c")
    case (Some op)
    from step parse_char_op [OF Some, of st]
    have "st1 = set_cur_ops st (ops (block_append_op (heap st ! cur st) op))" by simp
    with ag show ?thesis
      by (auto simp: agrees_def set_cur_ops_def)
  next
    case None
    consider (opn) "c = CHR ''[''" | (cls) "c = CHR '']''" | (other) "c \<noteq> CHR ''[''" "c \<noteq> CHR '']''"
      by blast
    then show ?thesis
    proof cases
      case opn
      with step have st1: "st1 = st\<lparr>heap := (heap st)[cur st := (heap st ! cur st)\<lparr>next := Some (length (heap st))\<rparr>] @ [empty_block],
             cur := length (heap st), unclosed := length (heap st) # unclosed st\<rparr>"
        by (simp add: parse_char_open)
      show ?thesis
        unfolding agrees_def
      proof (intro conjI allI impI ballI)
        from ag show "length (heap st) \<le> length hp" by (simp add: agrees_def st1)
      next
        fix i assume i: "i < cur st"
        with len have "i < cur st1" by (simp add: st1)
        with ag have "next (hp ! i) = next (heap st1 ! i) \<and> ops (hp ! i) = ops (heap st1 ! i)
                       \<and> (i \<in> set (unclosed st1) \<or> exit (hp ! i) = exit (heap st1 ! i))"
          by (simp add: agrees_def)
        moreover from i len have "heap st1 ! i = heap st ! i"
          by (simp add: st1 nth_append)
        moreover from i len have "i \<in> set (unclosed st1) \<longleftrightarrow> i \<in> set (unclosed st)"
          by (auto simp: st1)
        ultimately show "next (hp ! i) = next (heap st ! i)" "ops (hp ! i) = ops (heap st ! i)"
          "i \<in> set (unclosed st) \<or> exit (hp ! i) = exit (heap st ! i)"
          by simp_all
      next
        fix i assume "i \<in> set (unclosed st)"
        with ag show "exit (hp ! i) \<noteq> None" by (simp add: agrees_def st1)
      qed
    next
      case cls
      with step obtain h rest where u: "unclosed st = h # rest"
        by (cases "unclosed st") (simp_all add: parse_char_close_empty)
      with step cls have st1: "st1 = st\<lparr>heap := (heap st)[h := (heap st ! h)\<lparr>exit := Some (length (heap st))\<rparr>] @ [empty_block],
             cur := length (heap st), unclosed := rest\<rparr>"
        by (simp add: parse_char_close)
      from u dist bound have h: "h \<notin> set rest" "h \<le> cur st" by simp_all
      show ?thesis
        unfolding agrees_def
      proof (intro conjI allI impI ballI)
        from ag show "length (heap st) \<le> length hp" by (simp add: agrees_def st1)
      next
        fix i assume i: "i < cur st"
        with len have "i < cur st1" by (simp add: st1)
        with ag have a: "next (hp ! i) = next (heap st1 ! i) \<and> ops (hp ! i) = ops (heap st1 ! i)
                       \<and> (i \<in> set (unclosed st1) \<or> exit (hp ! i) = exit (heap st1 ! i))"
          by (simp add: agrees_def)
        from i len have n: "next (heap st1 ! i) = next (heap st ! i)" "ops (heap st1 ! i) = ops (heap st ! i)"
          by (cases "i = h"; simp add: st1 nth_append)+
        from i len have e: "i \<noteq> h \<Longrightarrow> exit (heap st1 ! i) = exit (heap st ! i)"
          by (simp add: st1 nth_append)
        from a n show "next (hp ! i) = next (heap st ! i)" "ops (hp ! i) = ops (heap st ! i)"
          by simp_all
        from a e show "i \<in> set (unclosed st) \<or> exit (hp ! i) = exit (heap st ! i)"
          by (auto simp: st1 u)
      next
        fix i assume i: "i \<in> set (unclosed st)"
        show "exit (hp ! i) \<noteq> None"
        proof (cases "i = h")
          case True
          from h len have "h < cur st1" by (simp add: st1)
          with ag have "h \<in> set (unclosed st1) \<or> exit (hp ! h) = exit (heap st1 ! h)"
            by (simp add: agrees_def)
          with h have "exit (hp ! h) = exit (heap st1 ! h)" by (simp add: st1)
          also from h len have "\<dots> = Some (length (heap st))"
            by (simp add: st1 nth_append)
          finally show ?thesis using True by simp
        next
          case False
          with i u have "i \<in> set (unclosed st1)" by (simp add: st1)
          with ag show ?thesis by (simp add: agrees_def)
        qed
      qed
    next
      case other
      with None step have "st1 = st" by (simp add: parse_char_comment)
      with ag show ?thesis by simp
    qed
  qed
qed

lemma agrees_parse_loop:
  "pstate_wf st \<Longrightarrow> parse_loop src st = Inr stF \<Longrightarrow> unclosed stF = [] \<Longrightarrow> agrees st (heap stF)"
proof (induction src arbitrary: st)
  case Nil
  then show ?case by (simp add: agrees_final)
next
  case (Cons c cs)
  from Cons.prems(2) obtain st1 where 1: "parse_char c st = Inr st1" and 2: "parse_loop cs st1 = Inr stF"
    by (auto split: sum.splits)
  from pstate_wf_parse_char [OF Cons.prems(1) 1] have "pstate_wf st1" .
  from Cons.IH [OF this 2 Cons.prems(3)] have "agrees st1 (heap stF)" .
  with Cons.prems(1) 1 show ?case by (rule agrees_step)
qed

lemma at_cur_fields [simp]:
  "blk (at_cur st vis) = cur st" "layer (at_cur st vis) = length (pending st)"
  "loops (at_cur st vis) = pending st" "visited (at_cur st vis) = vis"
  by (simp_all add: at_cur_def)

lemma entered_at_cur:
  assumes "pstate_wf st" "(exit (hp ! cur st) \<noteq> None) = (cur st \<in> set (unclosed st))"
  shows "entered hp (at_cur st vis) =
           \<lparr>blk = cur st, layer = length (unclosed st), loops = unclosed st, visited = vis @ [cur st]\<rparr>"
proof (cases "cur st \<in> set (unclosed st)")
  case True
  with assms(1) have "hd (unclosed st) = cur st" "unclosed st \<noteq> []"
    by (auto simp: pstate_wf_def)
  then obtain R where u: "unclosed st = cur st # R" by (cases "unclosed st") simp_all
  with assms(2) show ?thesis
    by (simp add: entered_def at_cur_def pending_def Let_def)
next
  case False
  with assms(2) show ?thesis
    by (simp add: entered_def at_cur_def pending_def Let_def)
qed

lemma block_calls_at_cur:
  assumes "pstate_wf st" "(exit (hp ! cur st) \<noteq> None) = (cur st \<in> set (unclosed st))"
    and "ops (hp ! cur st) = ops (heap st ! cur st)"
  shows "block_calls fmt_p tgt hp (at_cur st vis) =
           (if cur st \<in> set (unclosed st)
            then head_calls fmt_p (cur st) (length (pending st)) tgt else [])
           @ ops_calls (ops (heap st ! cur st)) (length (unclosed st)) tgt"
  unfolding block_calls_def entered_at_cur [OF assms(1,2)]
  using assms(2,3) by simp

lemma emit_blocks_script:
  assumes tgt: "tgt \<noteq> TARGET_NOT_SELECTED"
  shows "pstate_wf st \<Longrightarrow> parse_loop src st = Inr stF \<Longrightarrow> unclosed stF = [] \<Longrightarrow>
     after_writes
       ((if cur st \<in> set (unclosed st)
         then head_calls fmt_p (cur st) (length (pending st)) tgt else [])
        @ script fmt_p tgt src st)
       (emit_blocks fmt_p tgt (heap stF) (at_cur st vis))
       (\<lambda>fl. Some (Done, \<lparr>blk = cur stF, layer = 0, loops = [],
                             visited = vis @ [cur st ..< length (heap stF)]\<rparr>, fl))"
proof (induction src arbitrary: st vis)
  case Nil
  then have stF: "stF = st" and u: "unclosed st = []" by simp_all
  from Nil(1) u have len: "Suc (cur st) = length (heap st)"
    and nx: "next (heap st ! cur st) = None" and ex: "exit (heap st ! cur st) = None"
    by (simp_all add: pstate_wf_def)
  from ex u have F3: "(exit (heap st ! cur st) \<noteq> None) = (cur st \<in> set (unclosed st))" by simp
  note ent = entered_at_cur [OF Nil(1) F3, of vis]
  note bc = block_calls_at_cur [OF Nil(1) F3 refl, of fmt_p tgt vis]
  have k: "blk (at_cur st vis) < length (heap st)" using len by simp
  have "after_writes (block_calls fmt_p tgt (heap st) (at_cur st vis))
          (emit_blocks fmt_p tgt (heap st) (at_cur st vis))
          (\<lambda>fl. Some (Done, entered (heap st) (at_cur st vis), fl))"
    by (rule emit_blocks_finish [OF tgt k]) (simp_all add: nx ent u)
  moreover from len have "[cur st ..< length (heap st)] = [cur st]"
    by (simp add: len [symmetric])
  ultimately show ?case
    by (simp add: stF bc ent u)
next
  case (Cons c cs)
  from Cons.prems(2) obtain st1 where step: "parse_char c st = Inr st1"
    and rest: "parse_loop cs st1 = Inr stF"
    by (auto split: sum.splits)
  from pstate_wf_parse_char [OF Cons.prems(1) step] have wf1: "pstate_wf st1" .
  from agrees_parse_loop [OF wf1 rest Cons.prems(3)] have ag: "agrees st1 (heap stF)" .
  note wf = Cons.prems(1)
  from wf have len: "Suc (cur st) = length (heap st)"
    and dist: "distinct (unclosed st)"
    and bound: "\<forall>h \<in> set (unclosed st). h \<le> cur st"
    and nx: "next (heap st ! cur st) = None"
    and ex: "cur st \<in> set (unclosed st) \<or> exit (heap st ! cur st) = None"
    and top: "cur st \<notin> set (unclosed st) \<or> hd (unclosed st) = cur st"
    by (simp_all add: pstate_wf_def list_all_iff)
  let ?hp = "heap stF"
  let ?hd = "if cur st \<in> set (unclosed st)
             then head_calls fmt_p (cur st) (length (pending st)) tgt else []"
  show ?case
  proof (cases "op_of_char c")
    case (Some op)
    from step parse_char_op [OF Some, of st]
    have st1: "st1 = set_cur_ops st (ops (block_append_op (heap st ! cur st) op))" by simp
    from Some have c: "c \<noteq> CHR ''[''" "c \<noteq> CHR '']''" by auto
    have e: "at_cur st1 vis = at_cur st vis" "pending st1 = pending st" "cur st1 = cur st"
        "unclosed st1 = unclosed st"
      by (simp_all add: st1 at_cur_def pending_def)
    have sc: "script fmt_p tgt (c # cs) st = script fmt_p tgt cs st1"
      using step c by simp
    from Cons.IH [OF wf1 rest Cons.prems(3), of vis] show ?thesis
      unfolding sc e .
  next
    case None
    consider (opn) "c = CHR ''[''" | (cls) "c = CHR '']''" | (other) "c \<noteq> CHR ''[''" "c \<noteq> CHR '']''"
      by blast
    then show ?thesis
    proof cases
      case other
      with None step have e: "st1 = st" by (simp add: parse_char_comment)
      have sc: "script fmt_p tgt (c # cs) st = script fmt_p tgt cs st1"
        using step other by simp
      from Cons.IH [OF wf1 rest Cons.prems(3), of vis] show ?thesis
        unfolding sc e .
    next
      case opn
      let ?n = "length (heap st)"
      from opn step have st1: "st1 = st\<lparr>heap := (heap st)[cur st := (heap st ! cur st)\<lparr>next := Some ?n\<rparr>] @ [empty_block],
             cur := ?n, unclosed := ?n # unclosed st\<rparr>"
        by (simp add: parse_char_open)
      have lt1: "cur st < cur st1" using len by (simp add: st1)
      with ag have a: "next (?hp ! cur st) = next (heap st1 ! cur st)"
          "ops (?hp ! cur st) = ops (heap st1 ! cur st)"
          "cur st \<in> set (unclosed st1) \<or> exit (?hp ! cur st) = exit (heap st1 ! cur st)"
        and ao: "\<forall>i \<in> set (unclosed st1). exit (?hp ! i) \<noteq> None"
        and al: "length (heap st1) \<le> length ?hp"
        by (simp_all add: agrees_def)
      from len have h1: "heap st1 ! cur st = (heap st ! cur st)\<lparr>next := Some ?n\<rparr>"
        by (simp add: st1 nth_append)
      from a(1) h1 have F_next: "next (?hp ! cur st) = Some ?n" by simp
      from a(2) h1 have F2: "ops (?hp ! cur st) = ops (heap st ! cur st)" by simp
      have F3: "(exit (?hp ! cur st) \<noteq> None) = (cur st \<in> set (unclosed st))"
      proof (cases "cur st \<in> set (unclosed st)")
        case True
        with ao show ?thesis by (simp add: st1)
      next
        case False
        with len have "cur st \<notin> set (unclosed st1)" by (simp add: st1)
        with a(3) h1 have "exit (?hp ! cur st) = exit (heap st ! cur st)" by simp
        with False ex show ?thesis by simp
      qed
      from al len have k: "blk (at_cur st vis) < length ?hp" by (simp add: st1)
      note ent = entered_at_cur [OF wf F3, of vis]
      note bc = block_calls_at_cur [OF wf F3 F2, of fmt_p tgt vis]
      have p1: "pending st1 = unclosed st" by (simp add: st1 pending_def)
      have cn: "cur st1 = ?n" by (simp add: st1)
      have w1: "(entered ?hp (at_cur st vis))\<lparr>blk := ?n\<rparr> = at_cur st1 (vis @ [cur st])"
        unfolding ent by (simp add: at_cur_def p1 cn)
      have "after_writes (block_calls fmt_p tgt ?hp (at_cur st vis))
                 (emit_blocks fmt_p tgt ?hp (at_cur st vis))
                 (emit_blocks fmt_p tgt ?hp ((entered ?hp (at_cur st vis))\<lparr>blk := ?n\<rparr>))"
        by (rule emit_blocks_advance [OF tgt k]) (simp add: F_next)
      then have 1: "after_writes (block_calls fmt_p tgt ?hp (at_cur st vis))
                 (emit_blocks fmt_p tgt ?hp (at_cur st vis))
                 (emit_blocks fmt_p tgt ?hp (at_cur st1 (vis @ [cur st])))"
        unfolding w1 .
      have c1: "cur st1 \<in> set (unclosed st1)" "cur st1 = ?n" by (simp_all add: st1)
      from al len have "cur st < length ?hp" by (simp add: st1)
      then have vis: "(vis @ [cur st]) @ [cur st1 ..< length ?hp] = vis @ [cur st ..< length ?hp]"
        using len c1(2) by (simp add: upt_conv_Cons)
      have 2: "after_writes (head_calls fmt_p ?n (length (unclosed st)) tgt @ script fmt_p tgt cs st1)
                 (emit_blocks fmt_p tgt ?hp (at_cur st1 (vis @ [cur st])))
                 (\<lambda>fl. Some (Done, \<lparr>blk = cur stF, layer = 0, loops = [],
                             visited = vis @ [cur st ..< length ?hp]\<rparr>, fl))"
        using Cons.IH [OF wf1 rest Cons.prems(3), of "vis @ [cur st]"] c1 p1 vis by simp
      have sc: "script fmt_p tgt (c # cs) st =
                  ops_calls (ops (heap st ! cur st)) (length (unclosed st)) tgt
                  @ head_calls fmt_p ?n (length (unclosed st)) tgt @ script fmt_p tgt cs st1"
        using step opn c1(2) by simp
      from after_writes_trans [OF 1 2] show ?thesis
        unfolding sc bc by simp
    next
      case cls
      let ?n = "length (heap st)"
      from cls step obtain h R where u: "unclosed st = h # R"
        by (cases "unclosed st") (simp_all add: parse_char_close_empty)
      with cls step have st1: "st1 = st\<lparr>heap := (heap st)[h := (heap st ! h)\<lparr>exit := Some ?n\<rparr>] @ [empty_block],
             cur := ?n, unclosed := R\<rparr>"
        by (simp add: parse_char_close)
      from u dist bound have h: "h \<notin> set R" "h \<le> cur st" by simp_all
      from bound u len have nR: "?n \<notin> set R" by auto
      have lt1: "cur st < cur st1" "h < cur st1" using len h by (simp_all add: st1)
      with ag have a: "next (?hp ! cur st) = next (heap st1 ! cur st)"
          "ops (?hp ! cur st) = ops (heap st1 ! cur st)"
          "cur st \<in> set (unclosed st1) \<or> exit (?hp ! cur st) = exit (heap st1 ! cur st)"
          "h \<in> set (unclosed st1) \<or> exit (?hp ! h) = exit (heap st1 ! h)"
        and al: "length (heap st1) \<le> length ?hp"
        by (simp_all add: agrees_def)
      from h len have eh: "exit (heap st1 ! h) = Some ?n"
        by (simp add: st1 nth_append)
      with a(4) h have F_exit: "exit (?hp ! h) = Some ?n" by (simp add: st1)
      from len have "next (heap st1 ! cur st) = next (heap st ! cur st)"
          "ops (heap st1 ! cur st) = ops (heap st ! cur st)"
        by (cases "cur st = h"; simp add: st1 nth_append)+
      with a(1,2) nx have F_next: "next (?hp ! cur st) = None"
        and F2: "ops (?hp ! cur st) = ops (heap st ! cur st)" by simp_all
      have F3: "(exit (?hp ! cur st) \<noteq> None) = (cur st \<in> set (unclosed st))"
      proof (cases "cur st \<in> set (unclosed st)")
        case True
        with top have "hd (unclosed st) = cur st" by blast
        with u have "cur st = h" by simp
        with F_exit True show ?thesis by simp
      next
        case False
        with u have ne: "cur st \<noteq> h" "cur st \<notin> set R" by auto
        with len have "exit (heap st1 ! cur st) = exit (heap st ! cur st)"
          by (simp add: st1 nth_append)
        with a(3) ne have "exit (?hp ! cur st) = exit (heap st ! cur st)" by (simp add: st1)
        with False ex show ?thesis by simp
      qed
      from al len have k: "blk (at_cur st vis) < length ?hp" by (simp add: st1)
      from al len h have hk: "h < length ?hp" by (simp add: st1)
      note ent = entered_at_cur [OF wf F3, of vis]
      note bc = block_calls_at_cur [OF wf F3 F2, of fmt_p tgt vis]
      have p1: "pending st1 = R" using nR by (simp add: st1 pending_def)
      have cn: "cur st1 = ?n" by (simp add: st1)
      have lay: "layer (entered ?hp (at_cur st vis)) = length (unclosed st)"
        by (simp add: ent)
      have w1: "(entered ?hp (at_cur st vis))\<lparr>blk := ?n, loops := R,
                   layer := length (unclosed st) - 1\<rparr> = at_cur st1 (vis @ [cur st])"
        unfolding ent by (simp add: at_cur_def p1 cn u)
      have "after_writes
                 (block_calls fmt_p tgt ?hp (at_cur st vis)
                  @ tail_calls fmt_p h (layer (entered ?hp (at_cur st vis))) tgt)
                 (emit_blocks fmt_p tgt ?hp (at_cur st vis))
                 (emit_blocks fmt_p tgt ?hp
                    ((entered ?hp (at_cur st vis))\<lparr>blk := ?n, loops := R,
                       layer := layer (entered ?hp (at_cur st vis)) - 1\<rparr>))"
        by (rule emit_blocks_close [OF tgt k _ _ hk F_exit]) (simp_all add: F_next ent u)
      then have 1: "after_writes
                 (block_calls fmt_p tgt ?hp (at_cur st vis)
                  @ tail_calls fmt_p h (length (unclosed st)) tgt)
                 (emit_blocks fmt_p tgt ?hp (at_cur st vis))
                 (emit_blocks fmt_p tgt ?hp (at_cur st1 (vis @ [cur st])))"
        unfolding lay w1 .
      have c1: "cur st1 \<notin> set (unclosed st1)" "cur st1 = ?n" using nR by (simp_all add: st1)
      from al len have "cur st < length ?hp" by (simp add: st1)
      then have vis: "(vis @ [cur st]) @ [cur st1 ..< length ?hp] = vis @ [cur st ..< length ?hp]"
        using len c1(2) by (simp add: upt_conv_Cons)
      have 2: "after_writes (script fmt_p tgt cs st1)
                 (emit_blocks fmt_p tgt ?hp (at_cur st1 (vis @ [cur st])))
                 (\<lambda>fl. Some (Done, \<lparr>blk = cur stF, layer = 0, loops = [],
                             visited = vis @ [cur st ..< length ?hp]\<rparr>, fl))"
        using Cons.IH [OF wf1 rest Cons.prems(3), of "vis @ [cur st]"] c1 vis by simp
      have sc: "script fmt_p tgt (c # cs) st =
                  ops_calls (ops (heap st ! cur st)) (length (unclosed st)) tgt
                  @ tail_calls fmt_p h (length (unclosed st)) tgt @ script fmt_p tgt cs st1"
        using step cls u by simp
      from after_writes_trans [OF 1 2] show ?thesis
        unfolding sc bc by simp
    qed
  qed
qed

lemma after_writes_lift:
  assumes "after_writes ws f g"
    and "\<And>r w fl. r \<noteq> Done \<Longrightarrow> K (Some (r, w, fl)) = Some (r, w, fl)"
  shows "after_writes ws (\<lambda>fl. K (f fl)) (\<lambda>fl. K (g fl))"
  unfolding after_writes_def
proof
  fix fl
  obtain r fl1 where 1: "write_calls ws fl = (r, fl1)" by (cases "write_calls ws fl")
  from assms(1) have a: "case write_calls ws fl of
          (r, fl') \<Rightarrow> if r = Done then f fl = g fl' else outcome (f fl) = Some (r, fl')"
    unfolding after_writes_def by (rule spec)
  show "case write_calls ws fl of
          (r, fl') \<Rightarrow> if r = Done then K (f fl) = K (g fl') else outcome (K (f fl)) = Some (r, fl')"
  proof (cases "r = Done")
    case True
    with 1 a show ?thesis by simp
  next
    case False
    with 1 a have "outcome (f fl) = Some (r, fl1)" by simp
    then obtain w where "f fl = Some (r, w, fl1)"
      by (auto simp: outcome_def)
    with assms(2) [OF False] 1 False show ?thesis by (simp add: outcome_def)
  qed
qed

lemma emit_code_program:
  assumes tgt: "tgt \<noteq> TARGET_NOT_SELECTED" and p: "parse src = Inr hp"
  shows "after_writes (program_calls fmt_p tgt src) (emit_code fmt_p hp 0 tgt)
           (\<lambda>fl. Some (Done, final_walk (length hp), fl))"
proof -
  from p obtain stF where loop: "parse_loop src parse_init = Inr stF"
    and u: "unclosed stF = []" and hp: "hp = heap stF"
    by (auto simp: parse_Inr_iff)
  from pstate_wf_parse_loop [OF pstate_wf_init loop] have "pstate_wf stF" .
  then have cF: "cur stF = length hp - 1" by (auto simp: pstate_wf_def hp)
  let ?w = "\<lparr>blk = 0, layer = 0, loops = [], visited = []\<rparr>"
  let ?wF = "final_walk (length hp)"
  define G2 where "G2 = (\<lambda>w1 fl1. case emit_file_tail tgt fl1 of
      (r2, fl2) \<Rightarrow> if r2 \<noteq> Done then Some (r2, w1, fl2)
                   else if layer w1 \<noteq> 0 then Some (Aborted, w1, fl2)
                   else Some (Done, w1 :: walk, fl2))"
  define K where "K = (\<lambda>x. case x of None \<Rightarrow> None
      | Some (r1, w1, fl1) \<Rightarrow> if r1 \<noteq> Done then Some (r1, w1, fl1) else G2 w1 fl1)"
  have 1: "after_writes (file_head_calls tgt) (emit_code fmt_p hp 0 tgt)
             (\<lambda>fl. K (emit_blocks fmt_p tgt hp ?w fl))"
    by (rule after_writes_bind [OF writes_emit_file_head [OF tgt], where ?w0.0 = ?w])
      (simp add: emit_code_def K_def G2_def Let_def
         cong: if_cong option.case_cong prod.case_cong)
  have w: "at_cur parse_init [] = ?w"
    by (simp add: at_cur_def pending_def parse_init_def)
  have "after_writes (script fmt_p tgt src parse_init)
          (emit_blocks fmt_p tgt hp ?w) (\<lambda>fl. Some (Done, ?wF, fl))"
  proof -
    have i: "cur parse_init = 0" "unclosed parse_init = []" by (simp_all add: parse_init_def)
    from emit_blocks_script [OF tgt pstate_wf_init loop u, of fmt_p "[]"] show ?thesis
      by (simp add: w hp [symmetric] cF final_walk_def i)
  qed
  then have 2: "after_writes (script fmt_p tgt src parse_init)
          (\<lambda>fl. K (emit_blocks fmt_p tgt hp ?w fl)) (\<lambda>fl. K (Some (Done, ?wF, fl)))"
    by (rule after_writes_lift) (simp add: K_def)
  have 3: "after_writes (file_tail_calls tgt) (\<lambda>fl. K (Some (Done, ?wF, fl)))
             (\<lambda>fl. Some (Done, ?wF, fl))"
    by (rule after_writes_bind [OF writes_emit_file_tail [OF tgt], where ?w0.0 = ?wF])
      (simp add: K_def G2_def final_walk_def cong: if_cong prod.case_cong)
  from after_writes_trans [OF 1 after_writes_trans [OF 2 3]] show ?thesis
    by (simp add: program_calls_def)
qed

lemma emit_code_outcome:
  assumes "tgt \<noteq> TARGET_NOT_SELECTED" "parse src = Inr hp"
  shows "outcome (emit_code fmt_p hp 0 tgt fl) = Some (write_calls (program_calls fmt_p tgt src) fl)"
proof -
  obtain r fl1 where 1: "write_calls (program_calls fmt_p tgt src) fl = (r, fl1)"
    by (cases "write_calls (program_calls fmt_p tgt src) fl")
  from emit_code_program [OF assms, of fmt_p]
  have "case write_calls (program_calls fmt_p tgt src) fl of
          (r, fl') \<Rightarrow> if r = Done then emit_code fmt_p hp 0 tgt fl = Some (Done, final_walk (length hp), fl')
                      else outcome (emit_code fmt_p hp 0 tgt fl) = Some (r, fl')"
    unfolding after_writes_def by (rule spec)
  with 1 show ?thesis by (cases "r = Done") (simp_all add: outcome_def)
qed

lemma emit_code_reliable:
  assumes "tgt \<noteq> TARGET_NOT_SELECTED" "parse src = Inr hp" "reliable fl"
  shows "emit_code fmt_p hp 0 tgt fl
           = Some (Done, final_walk (length hp), wrote (program_calls fmt_p tgt src) fl)"
proof -
  from emit_code_program [OF assms(1,2), of fmt_p]
  have "case write_calls (program_calls fmt_p tgt src) fl of
          (r, fl') \<Rightarrow> if r = Done then emit_code fmt_p hp 0 tgt fl = Some (Done, final_walk (length hp), fl')
                      else outcome (emit_code fmt_p hp 0 tgt fl) = Some (r, fl')"
    unfolding after_writes_def by (rule spec)
  with reliable_write_calls [OF assms(3)] show ?thesis by simp
qed

lemma write_calls_result:
  "\<exists>n \<le> length ws. (\<forall>i < n. accepts fl (calls fl + i)) \<and>
     (if n = length ws then write_calls ws fl = (Done, wrote ws fl)
      else \<not> accepts fl (calls fl + n)
           \<and> write_calls ws fl
               = (WriteFailed, fl\<lparr>written := written fl @ concat (take n ws),
                                   calls := calls fl + n + 1\<rparr>))"
proof (induction ws arbitrary: fl)
  case Nil
  show ?case by (simp add: skip_def)
next
  case (Cons s ss)
  show ?case
  proof (cases "accepts fl (calls fl)")
    case False
    then have "write_calls (s # ss) fl = (WriteFailed, fl\<lparr>calls := Suc (calls fl)\<rparr>)"
      by (simp add: fprintf_def and_then_def)
    with False show ?thesis by (intro exI [of _ 0]) simp
  next
    case True
    let ?fl1 = "fl\<lparr>written := written fl @ s, calls := Suc (calls fl)\<rparr>"
    from True have w: "write_calls (s # ss) fl = write_calls ss ?fl1"
      by (simp add: fprintf_def)
    from Cons.IH [of ?fl1] obtain n where n: "n \<le> length ss"
      "\<forall>i < n. accepts ?fl1 (calls ?fl1 + i)"
      "if n = length ss then write_calls ss ?fl1 = (Done, wrote ss ?fl1)
       else \<not> accepts ?fl1 (calls ?fl1 + n)
            \<and> write_calls ss ?fl1
                = (WriteFailed, ?fl1\<lparr>written := written ?fl1 @ concat (take n ss),
                                     calls := calls ?fl1 + n + 1\<rparr>)"
      by blast
    have "\<forall>i < Suc n. accepts fl (calls fl + i)"
    proof (intro allI impI)
      fix i assume "i < Suc n"
      then show "accepts fl (calls fl + i)"
        using True n(2) by (cases i) auto
    qed
    moreover have "if Suc n = length (s # ss) then write_calls (s # ss) fl = (Done, wrote (s # ss) fl)
      else \<not> accepts fl (calls fl + Suc n)
           \<and> write_calls (s # ss) fl
               = (WriteFailed, fl\<lparr>written := written fl @ concat (take (Suc n) (s # ss)),
                                   calls := calls fl + Suc n + 1\<rparr>)"
      unfolding w using n(3) by (simp add: wrote_def split: if_splits)
    ultimately show ?thesis using n(1) by (intro exI [of _ "Suc n"]) simp
  qed
qed

lemma emit_code_Some:
  assumes "outcome (emit_code fmt_p hp root tgt fl) = Some (r, fl')"
  shows "\<exists>w. emit_code fmt_p hp root tgt fl = Some (r, w, fl')"
  using assms by (auto simp: outcome_def)

lemma bracket_step_ops:
  assumes wf: "pstate_wf st" and c: "c = CHR ''['' \<or> c = CHR '']''"
    and step: "parse_char c st = Inr st1" and ag: "agrees st1 hp"
  shows "ops (hp ! cur st) = ops (heap st ! cur st) \<and> cur st1 = Suc (cur st) \<and> cur st < length hp"
proof -
  from wf have len: "Suc (cur st) = length (heap st)" by (simp add: pstate_wf_def)
  from c step len have c1: "cur st1 = Suc (cur st)" "length (heap st1) = Suc (length (heap st))"
    by (auto simp: parse_char_def Let_def split: list.splits)
  have "ops ((heap st)[i := (heap st ! i)\<lparr>exit := e\<rparr>] ! cur st) = ops (heap st ! cur st)" for i e
    using len by (cases "i = cur st") simp_all
  with c step len have o1: "ops (heap st1 ! cur st) = ops (heap st ! cur st)"
    by (auto simp: parse_char_def Let_def nth_append split: list.splits)
  from ag c1 have "ops (hp ! cur st) = ops (heap st1 ! cur st)" "length (heap st1) \<le> length hp"
    by (simp_all add: agrees_def)
  with c1 o1 len show ?thesis by simp
qed

lemma script_blocks:
  "pstate_wf st \<Longrightarrow> parse_loop src st = Inr stF \<Longrightarrow> unclosed stF = [] \<Longrightarrow>
   \<exists>d sep. script fmt_p tgt src st
     = concat (map (\<lambda>k. ops_calls (ops (heap stF ! k)) (d k) tgt @ sep k)
                [cur st ..< length (heap stF)])"
proof (induction src arbitrary: st)
  case Nil
  then have stF: "stF = st" by simp
  from Nil(1) have "Suc (cur st) = length (heap st)" by (simp add: pstate_wf_def)
  then have e: "[cur st ..< length (heap st)] = [cur st]"
    by (simp add: \<open>Suc (cur st) = length (heap st)\<close> [symmetric])
  show ?case unfolding stF
    by (rule exI [of _ "\<lambda>k. length (unclosed st)"], rule exI [of _ "\<lambda>k. []"])
      (simp add: e)
next
  case (Cons c cs)
  from Cons.prems(2) obtain st1 where step: "parse_char c st = Inr st1"
    and rest: "parse_loop cs st1 = Inr stF"
    by (auto split: sum.splits)
  from pstate_wf_parse_char [OF Cons.prems(1) step] have wf1: "pstate_wf st1" .
  from Cons.IH [OF wf1 rest Cons.prems(3)] obtain d sep where
    IH: "script fmt_p tgt cs st1
     = concat (map (\<lambda>k. ops_calls (ops (heap stF ! k)) (d k) tgt @ sep k)
                [cur st1 ..< length (heap stF)])"
    by blast
  show ?case
  proof (cases "c = CHR ''['' \<or> c = CHR '']''")
    case False
    then have sc: "script fmt_p tgt (c # cs) st = script fmt_p tgt cs st1"
      using step by simp
    from False step have "cur st1 = cur st"
      by (auto simp: parse_char_def split: if_splits option.splits)
    with IH sc have "script fmt_p tgt (c # cs) st
     = concat (map (\<lambda>k. ops_calls (ops (heap stF ! k)) (d k) tgt @ sep k)
                [cur st ..< length (heap stF)])"
      by simp
    then show ?thesis
      by (intro exI [of _ d] exI [of _ sep])
  next
    case True
    from agrees_parse_loop [OF wf1 rest Cons.prems(3)] have ag: "agrees st1 (heap stF)" .
    from bracket_step_ops [OF Cons.prems(1) True step ag]
    have o: "ops (heap stF ! cur st) = ops (heap st ! cur st)"
      and c1: "cur st1 = Suc (cur st)" and lt: "cur st < length (heap stF)"
      by simp_all
    define line where "line = (if c = CHR ''['' then head_calls fmt_p (cur st1) (length (unclosed st)) tgt
               else tail_calls fmt_p (hd (unclosed st)) (length (unclosed st)) tgt)"
    have sc: "script fmt_p tgt (c # cs) st
        = (ops_calls (ops (heap stF ! cur st)) (length (unclosed st)) tgt @ line)
          @ script fmt_p tgt cs st1"
      using step True by (auto simp: line_def o)
    let ?d = "d(cur st := length (unclosed st))" and ?sep = "sep(cur st := line)"
    have "map (\<lambda>k. ops_calls (ops (heap stF ! k)) (d k) tgt @ sep k) [Suc (cur st) ..< length (heap stF)]
        = map (\<lambda>k. ops_calls (ops (heap stF ! k)) (?d k) tgt @ ?sep k) [Suc (cur st) ..< length (heap stF)]"
      by (rule map_cong) auto
    with IH c1 have "script fmt_p tgt cs st1
        = concat (map (\<lambda>k. ops_calls (ops (heap stF ! k)) (?d k) tgt @ ?sep k)
                    [Suc (cur st) ..< length (heap stF)])"
      by simp
    moreover from lt have "[cur st ..< length (heap stF)] = cur st # [Suc (cur st) ..< length (heap stF)]"
      by (rule upt_conv_Cons)
    ultimately have "script fmt_p tgt (c # cs) st
        = concat (map (\<lambda>k. ops_calls (ops (heap stF ! k)) (?d k) tgt @ ?sep k)
                    [cur st ..< length (heap stF)])"
      unfolding sc by simp
    then show ?thesis
      by (intro exI [of _ ?d] exI [of _ ?sep])
  qed
qed

text \<open>
  C7: on a program built by \<^verbatim>\<open>parse\<close>, \<^verbatim>\<open>emit_code\<close> returns, whatever the target and the
  file. When no write fails it returns 1 from the one exit of its loop: at the last
  block, which has no \<^verbatim>\<open>next\<close>, with no loop open, the depth at 0 (the final \<^verbatim>\<open>ASSERT\<close>
  holds), having been at every block of the program once, in the order of allocation.
  The file it leaves shows the visit: it holds the text of \<open>program_calls\<close>, which is the
  head of the file, then block after block, in that order, the operations of the
  block at its depth followed by the bracket line that leads to the next block, then
  the tail of the file.
\<close>

theorem C7_traversal:
  assumes "parse src = Inr hp"
  shows "(\<forall>tgt fl. \<exists>res. emit_code fmt_p hp 0 tgt fl = Some res)
         \<and> (\<forall>tgt fl. tgt \<noteq> TARGET_NOT_SELECTED \<and> reliable fl \<longrightarrow>
               emit_code fmt_p hp 0 tgt fl
                 = Some (Done, \<lparr>blk = length hp - 1, layer = 0, loops = [],
                                 visited = [0..<length hp]\<rparr>,
                         wrote (program_calls fmt_p tgt src) fl))
         \<and> (\<forall>tgt. \<exists>d sep. program_calls fmt_p tgt src
               = file_head_calls tgt
                 @ concat (map (\<lambda>k. ops_calls (ops (hp ! k)) (d k) tgt @ sep k) [0..<length hp])
                 @ file_tail_calls tgt)
         \<and> next (hp ! (length hp - 1)) = None"
proof (intro conjI allI impI)
  fix tgt fl
  show "\<exists>res. emit_code fmt_p hp 0 tgt fl = Some res"
  proof (cases "tgt = TARGET_NOT_SELECTED")
    case True
    then show ?thesis by (simp add: emit_code_def emit_file_head_def abort_def)
  next
    case False
    from emit_code_outcome [OF False assms, of fmt_p fl] show ?thesis
      by (auto simp: outcome_def)
  qed
next
  fix tgt fl
  assume "tgt \<noteq> TARGET_NOT_SELECTED \<and> reliable fl"
  then show "emit_code fmt_p hp 0 tgt fl
                 = Some (Done, \<lparr>blk = length hp - 1, layer = 0, loops = [],
                                 visited = [0..<length hp]\<rparr>,
                         wrote (program_calls fmt_p tgt src) fl)"
    using emit_code_reliable [OF _ assms, of tgt fl fmt_p] by (simp add: final_walk_def)
next
  fix tgt
  from assms obtain stF where loop: "parse_loop src parse_init = Inr stF"
    and u: "unclosed stF = []" and hp: "hp = heap stF"
    by (auto simp: parse_Inr_iff)
  from script_blocks [OF pstate_wf_init loop u, of fmt_p tgt] obtain d sep where
    "script fmt_p tgt src parse_init
       = concat (map (\<lambda>k. ops_calls (ops (hp ! k)) (d k) tgt @ sep k) [0..<length hp])"
    by (auto simp: hp parse_init_def)
  then have "program_calls fmt_p tgt src
               = file_head_calls tgt
                 @ concat (map (\<lambda>k. ops_calls (ops (hp ! k)) (d k) tgt @ sep k) [0..<length hp])
                 @ file_tail_calls tgt"
    by (simp add: program_calls_def)
  then show "\<exists>d sep. program_calls fmt_p tgt src
               = file_head_calls tgt
                 @ concat (map (\<lambda>k. ops_calls (ops (hp ! k)) (d k) tgt @ sep k) [0..<length hp])
                 @ file_tail_calls tgt"
    by (intro exI [of _ d] exI [of _ sep])
next
  from assms obtain stF where loop: "parse_loop src parse_init = Inr stF" and hp: "hp = heap stF"
    by (auto simp: parse_Inr_iff)
  from pstate_wf_parse_loop [OF pstate_wf_init loop]
  have "Suc (cur stF) = length (heap stF)" "next (heap stF ! cur stF) = None"
    by (simp_all add: pstate_wf_def)
  then show "next (hp ! (length hp - 1)) = None"
    by (metis diff_Suc_1 hp)
qed

theorem C7_traversal_witness:
  "parse ''+[[-]>]'' =
     Inr [\<lparr>next = Some 1, exit = None, ops = [OpInc 1]\<rparr>,
          \<lparr>next = Some 2, exit = Some 4, ops = []\<rparr>,
          \<lparr>next = None, exit = Some 3, ops = [OpInc 255]\<rparr>,
          \<lparr>next = None, exit = None, ops = [OpShift 1]\<rparr>,
          \<lparr>next = None, exit = None, ops = []\<rparr>]
   \<and> TARGET_BF \<noteq> TARGET_NOT_SELECTED \<and> reliable fresh_file
   \<and> emit_code (\<lambda>i. []) [\<lparr>next = Some 1, exit = None, ops = [OpInc 1]\<rparr>,
          \<lparr>next = Some 2, exit = Some 4, ops = []\<rparr>,
          \<lparr>next = None, exit = Some 3, ops = [OpInc 255]\<rparr>,
          \<lparr>next = None, exit = None, ops = [OpShift 1]\<rparr>,
          \<lparr>next = None, exit = None, ops = []\<rparr>] 0 TARGET_BF fresh_file
       = Some (Done, \<lparr>blk = 4, layer = 0, loops = [], visited = [0, 1, 2, 3, 4]\<rparr>,
               wrote (program_calls (\<lambda>i. []) TARGET_BF ''+[[-]>]'') fresh_file)
   \<and> written (wrote (program_calls (\<lambda>i. []) TARGET_BF ''+[[-]>]'') fresh_file)
       = ''+\<newline>[\<newline>    [\<newline>        -\<newline>    ]\<newline>    >\<newline>]\<newline>''
   \<and> calls (wrote (program_calls (\<lambda>i. []) TARGET_BF ''+[[-]>]'') fresh_file) = 15"
proof -
  let ?H = "[\<lparr>next = Some 1, exit = None, ops = [OpInc 1]\<rparr>,
          \<lparr>next = Some 2, exit = Some 4, ops = []\<rparr>,
          \<lparr>next = None, exit = Some 3, ops = [OpInc 255]\<rparr>,
          \<lparr>next = None, exit = None, ops = [OpShift 1]\<rparr>,
          \<lparr>next = None, exit = None, ops = []\<rparr>]"
  have p: "parse ''+[[-]>]'' = Inr ?H"
    by code_simp
  have e: "\<lparr>blk = length ?H - 1, layer = 0, loops = [], visited = [0..<length ?H]\<rparr>
             = \<lparr>blk = 4, layer = 0, loops = [], visited = [0, 1, 2, 3, 4]\<rparr>"
    by (simp add: upt_rec)
  have a: "TARGET_BF \<noteq> TARGET_NOT_SELECTED \<and> reliable fresh_file" by simp
  have w: "written (wrote (program_calls (\<lambda>i. []) TARGET_BF ''+[[-]>]'') fresh_file)
       = ''+\<newline>[\<newline>    [\<newline>        -\<newline>    ]\<newline>    >\<newline>]\<newline>''"
    by code_simp
  have c: "calls (wrote (program_calls (\<lambda>i. []) TARGET_BF ''+[[-]>]'') fresh_file) = 15"
    by code_simp
  from C7_traversal [OF p, of "\<lambda>i. []", THEN conjunct2, THEN conjunct1, rule_format, OF a]
  have "emit_code (\<lambda>i. []) ?H 0 TARGET_BF fresh_file
       = Some (Done, \<lparr>blk = 4, layer = 0, loops = [], visited = [0, 1, 2, 3, 4]\<rparr>,
               wrote (program_calls (\<lambda>i. []) TARGET_BF ''+[[-]>]'') fresh_file)"
    unfolding e .
  with p a w c show ?thesis by (intro conjI) simp_all
qed

text \<open>
  C9: for a program built by \<^verbatim>\<open>parse\<close> and a selected target, \<^verbatim>\<open>emit_code\<close> attempts a
  sequence of write calls that the program and the target fix. If the file accepts
  them all, it returns 1 and the file holds all their text. Otherwise it returns 0 at
  the first call the file refuses: the calls before it have been made and their text
  is in the file, and no call is made after it.
\<close>

theorem C9_write_failure:
  assumes "parse src = Inr hp" "tgt \<noteq> TARGET_NOT_SELECTED"
  shows "\<exists>ws. \<forall>fl. \<exists>n w. n \<le> length ws \<and> (\<forall>i < n. accepts fl (calls fl + i)) \<and>
           (if n = length ws
            then emit_code fmt_p hp 0 tgt fl
                   = Some (Done, w, fl\<lparr>written := written fl @ concat ws,
                                           calls := calls fl + length ws\<rparr>)
            else \<not> accepts fl (calls fl + n)
                 \<and> emit_code fmt_p hp 0 tgt fl
                     = Some (WriteFailed, w, fl\<lparr>written := written fl @ concat (take n ws),
                                                  calls := calls fl + n + 1\<rparr>))"
proof (intro exI [of _ "program_calls fmt_p tgt src"] allI)
  fix fl
  let ?ws = "program_calls fmt_p tgt src"
  from write_calls_result [of ?ws fl] obtain n where n: "n \<le> length ?ws"
    "\<forall>i < n. accepts fl (calls fl + i)"
    "if n = length ?ws then write_calls ?ws fl = (Done, wrote ?ws fl)
      else \<not> accepts fl (calls fl + n)
           \<and> write_calls ?ws fl
               = (WriteFailed, fl\<lparr>written := written fl @ concat (take n ?ws),
                                   calls := calls fl + n + 1\<rparr>)"
    by blast
  note oc = emit_code_outcome [OF assms(2,1), of fmt_p fl]
  show "\<exists>n w. n \<le> length ?ws \<and> (\<forall>i < n. accepts fl (calls fl + i)) \<and>
           (if n = length ?ws
            then emit_code fmt_p hp 0 tgt fl
                   = Some (Done, w, fl\<lparr>written := written fl @ concat ?ws,
                                           calls := calls fl + length ?ws\<rparr>)
            else \<not> accepts fl (calls fl + n)
                 \<and> emit_code fmt_p hp 0 tgt fl
                     = Some (WriteFailed, w, fl\<lparr>written := written fl @ concat (take n ?ws),
                                                  calls := calls fl + n + 1\<rparr>))"
  proof (cases "n = length ?ws")
    case True
    with n(3) oc obtain w where "emit_code fmt_p hp 0 tgt fl = Some (Done, w, wrote ?ws fl)"
      by (auto dest: emit_code_Some)
    with True n(1,2) show ?thesis
      by (intro exI [of _ n] exI [of _ w]) (simp add: wrote_def)
  next
    case False
    with n(3) oc obtain w where "emit_code fmt_p hp 0 tgt fl
        = Some (WriteFailed, w, fl\<lparr>written := written fl @ concat (take n ?ws),
                                   calls := calls fl + n + 1\<rparr>)"
      by (auto dest: emit_code_Some)
    with False n show ?thesis
      by (intro exI [of _ n] exI [of _ w]) simp
  qed
qed

theorem C9_write_failure_witness:
  "parse ''+'' = Inr [\<lparr>next = None, exit = None, ops = [OpInc 1]\<rparr>]
   \<and> TARGET_BF \<noteq> TARGET_NOT_SELECTED
   \<and> (\<exists>ws. \<forall>fl. \<exists>n w. n \<le> length ws \<and> (\<forall>i < n. accepts fl (calls fl + i)) \<and>
           (if n = length ws
            then emit_code (\<lambda>i. []) [\<lparr>next = None, exit = None, ops = [OpInc 1]\<rparr>] 0 TARGET_BF fl
                   = Some (Done, w, fl\<lparr>written := written fl @ concat ws,
                                           calls := calls fl + length ws\<rparr>)
            else \<not> accepts fl (calls fl + n)
                 \<and> emit_code (\<lambda>i. []) [\<lparr>next = None, exit = None, ops = [OpInc 1]\<rparr>] 0 TARGET_BF fl
                     = Some (WriteFailed, w, fl\<lparr>written := written fl @ concat (take n ws),
                                                  calls := calls fl + n + 1\<rparr>)))
   \<and> map_option (\<lambda>(r, w, fl). (r, written fl, calls fl))
        (emit_code (\<lambda>i. []) [\<lparr>next = None, exit = None, ops = [OpInc 1]\<rparr>] 0 TARGET_BF
           \<lparr>written = [], calls = 0, accepts = (\<lambda>n. n \<noteq> 1)\<rparr>)
       = Some (WriteFailed, ''+'', 2)"
proof -
  have p: "parse ''+'' = Inr [\<lparr>next = None, exit = None, ops = [OpInc 1]\<rparr>]"
    by code_simp
  have t: "TARGET_BF \<noteq> TARGET_NOT_SELECTED" by simp
  have e: "map_option (\<lambda>(r, w, fl). (r, written fl, calls fl))
        (emit_code (\<lambda>i. []) [\<lparr>next = None, exit = None, ops = [OpInc 1]\<rparr>] 0 TARGET_BF
           \<lparr>written = [], calls = 0, accepts = (\<lambda>n. n \<noteq> 1)\<rparr>)
       = Some (WriteFailed, ''+'', 2)"
    by code_simp
  from C9_write_failure [OF p t, of "\<lambda>i. []"] p t e show ?thesis
    by (intro conjI)
qed

lemma parse_char_heap_length:
  "parse_char c st = Inr st1 \<Longrightarrow> length (heap st) \<le> length (heap st1)"
  by (auto simp: parse_char_def Let_def split: if_splits option.splits list.splits)

lemma parse_loop_heap_length:
  "parse_loop src st = Inr stF \<Longrightarrow> length (heap st) \<le> length (heap stF)"
proof (induction src arbitrary: st)
  case Nil
  then show ?case by simp
next
  case (Cons c cs)
  then obtain st1 where "parse_char c st = Inr st1" "parse_loop cs st1 = Inr stF"
    by (auto split: sum.splits)
  with Cons.IH [of st1] parse_char_heap_length [of c st st1] show ?case by simp
qed

lemma head_calls_cong: "p k = q k \<Longrightarrow> head_calls p k d tgt = head_calls q k d tgt"
  by (cases tgt) (simp_all add: head_calls_def emit_loop_head_def)

lemma tail_calls_cong: "p k = q k \<Longrightarrow> tail_calls p k d tgt = tail_calls q k d tgt"
  by (cases tgt) (simp_all add: tail_calls_def emit_loop_tail_def)

lemma script_fmt_p_cong:
  "pstate_wf st \<Longrightarrow> parse_loop src st = Inr stF \<Longrightarrow> \<forall>i < length (heap stF). p i = q i \<Longrightarrow>
   script p tgt src st = script q tgt src st"
proof (induction src arbitrary: st)
  case Nil
  show ?case by simp
next
  case (Cons c cs)
  from Cons.prems(2) obtain st1 where step: "parse_char c st = Inr st1"
    and rest: "parse_loop cs st1 = Inr stF"
    by (auto split: sum.splits)
  from pstate_wf_parse_char [OF Cons.prems(1) step] have wf1: "pstate_wf st1" .
  note IH = Cons.IH [OF wf1 rest Cons.prems(3)]
  from wf1 parse_loop_heap_length [OF rest] have "cur st1 < length (heap stF)"
    by (simp add: pstate_wf_def)
  with Cons.prems(3) have h: "head_calls p (cur st1) (length (unclosed st)) tgt
      = head_calls q (cur st1) (length (unclosed st)) tgt"
    by (intro head_calls_cong) simp
  have t: "tail_calls p (hd (unclosed st)) (length (unclosed st)) tgt
      = tail_calls q (hd (unclosed st)) (length (unclosed st)) tgt" if "c = CHR '']''"
  proof -
    from that step obtain b R where u: "unclosed st = b # R"
      by (cases "unclosed st") (simp_all add: parse_char_close_empty)
    with Cons.prems(1) have "b \<le> cur st" "Suc (cur st) = length (heap st)"
      by (simp_all add: pstate_wf_def)
    with parse_char_heap_length [OF step] parse_loop_heap_length [OF rest]
    have "b < length (heap stF)" by simp
    with Cons.prems(3) u show ?thesis by (intro tail_calls_cong) simp
  qed
  from step IH h t show ?case by simp
qed

lemma script_bf_fmt_p: "script p TARGET_BF src st = script q TARGET_BF src st"
  by (induction src arbitrary: st)
    (auto simp: head_calls_def tail_calls_def split: sum.splits)

text \<open>
  C6, as the code has it. The assembly targets name the labels of a loop after the
  address of its block, printed with \<^verbatim>\<open>%p\<close>: the same program gives a different text
  when its blocks lie at other addresses.
\<close>

theorem C6_labels_follow_addresses:
  "map_option (\<lambda>(r, w, fl). written fl)
     (emit_code (\<lambda>i. ''0x55d0'')
        [\<lparr>next = Some 1, exit = None, ops = []\<rparr>,
         \<lparr>next = None, exit = Some 2, ops = []\<rparr>,
         \<lparr>next = None, exit = None, ops = []\<rparr>] 0 TARGET_NASM_LIBC fresh_file)
   \<noteq> map_option (\<lambda>(r, w, fl). written fl)
     (emit_code (\<lambda>i. ''0x7f3a'')
        [\<lparr>next = Some 1, exit = None, ops = []\<rparr>,
         \<lparr>next = None, exit = Some 2, ops = []\<rparr>,
         \<lparr>next = None, exit = None, ops = []\<rparr>] 0 TARGET_NASM_LIBC fresh_file)"
  by code_simp

text \<open>
  C6 (amended): on a program built by \<^verbatim>\<open>parse\<close>, the outcome of \<^verbatim>\<open>emit_code\<close> (its return
  value and the file it leaves) for the normalized-source target does not depend on the
  addresses of the blocks: it is the same whatever \<^verbatim>\<open>%p\<close> would print. For every selected
  target it depends on the addresses only through what \<^verbatim>\<open>%p\<close> prints for the blocks of
  the program: two runs that print these alike leave the same text.
\<close>

theorem C6_text_stable:
  assumes "parse src = Inr hp"
  shows "outcome (emit_code p hp 0 TARGET_BF fl) = outcome (emit_code q hp 0 TARGET_BF fl)
         \<and> (tgt \<noteq> TARGET_NOT_SELECTED \<and> (\<forall>i < length hp. p i = q i) \<longrightarrow>
              outcome (emit_code p hp 0 tgt fl) = outcome (emit_code q hp 0 tgt fl))"
proof (intro conjI impI)
  have "program_calls p TARGET_BF src = program_calls q TARGET_BF src"
    by (simp add: program_calls_def script_bf_fmt_p [of p _ _ q])
  with emit_code_outcome [OF _ assms, of TARGET_BF p fl]
    emit_code_outcome [OF _ assms, of TARGET_BF q fl]
  show "outcome (emit_code p hp 0 TARGET_BF fl) = outcome (emit_code q hp 0 TARGET_BF fl)"
    by simp
next
  assume h: "tgt \<noteq> TARGET_NOT_SELECTED \<and> (\<forall>i < length hp. p i = q i)"
  from assms obtain stF where loop: "parse_loop src parse_init = Inr stF" and hp: "hp = heap stF"
    by (auto simp: parse_Inr_iff)
  from h hp have "\<forall>i < length (heap stF). p i = q i" by simp
  with pstate_wf_init loop have "script p tgt src parse_init = script q tgt src parse_init"
    by (rule script_fmt_p_cong)
  then have "program_calls p tgt src = program_calls q tgt src"
    by (simp add: program_calls_def)
  with emit_code_outcome [OF _ assms, of tgt p fl] emit_code_outcome [OF _ assms, of tgt q fl] h
  show "outcome (emit_code p hp 0 tgt fl) = outcome (emit_code q hp 0 tgt fl)"
    by simp
qed

theorem C6_text_stable_witness:
  "parse ''[]'' = Inr [\<lparr>next = Some 1, exit = None, ops = []\<rparr>,
                      \<lparr>next = None, exit = Some 2, ops = []\<rparr>,
                      \<lparr>next = None, exit = None, ops = []\<rparr>]
   \<and> outcome (emit_code (\<lambda>i. ''0x55d0'')
        [\<lparr>next = Some 1, exit = None, ops = []\<rparr>,
         \<lparr>next = None, exit = Some 2, ops = []\<rparr>,
         \<lparr>next = None, exit = None, ops = []\<rparr>] 0 TARGET_BF fresh_file)
     = outcome (emit_code (\<lambda>i. ''0x7f3a'')
        [\<lparr>next = Some 1, exit = None, ops = []\<rparr>,
         \<lparr>next = None, exit = Some 2, ops = []\<rparr>,
         \<lparr>next = None, exit = None, ops = []\<rparr>] 0 TARGET_BF fresh_file)
   \<and> outcome (emit_code (\<lambda>i. if i < 3 then ''0x55d0'' else ''0x0'')
        [\<lparr>next = Some 1, exit = None, ops = []\<rparr>,
         \<lparr>next = None, exit = Some 2, ops = []\<rparr>,
         \<lparr>next = None, exit = None, ops = []\<rparr>] 0 TARGET_NASM_LIBC fresh_file)
     = outcome (emit_code (\<lambda>i. if i < 3 then ''0x55d0'' else ''0x1'')
        [\<lparr>next = Some 1, exit = None, ops = []\<rparr>,
         \<lparr>next = None, exit = Some 2, ops = []\<rparr>,
         \<lparr>next = None, exit = None, ops = []\<rparr>] 0 TARGET_NASM_LIBC fresh_file)"
proof -
  let ?H = "[\<lparr>next = Some 1, exit = None, ops = []\<rparr>,
             \<lparr>next = None, exit = Some 2, ops = []\<rparr>,
             \<lparr>next = None, exit = None, ops = []\<rparr>]"
  have p: "parse ''[]'' = Inr ?H"
    by code_simp
  have a: "TARGET_NASM_LIBC \<noteq> TARGET_NOT_SELECTED
      \<and> (\<forall>i < length ?H. (if i < 3 then ''0x55d0'' else ''0x0'') = (if i < 3 then ''0x55d0'' else ''0x1''))"
    by simp
  from C6_text_stable [OF p, of "\<lambda>i. ''0x55d0''" fresh_file "\<lambda>i. ''0x7f3a''", THEN conjunct1]
    C6_text_stable [OF p, THEN conjunct2, rule_format, OF a, of fresh_file] p
  show ?thesis by (intro conjI)
qed

lemma count_list_replicate_eq: "count_list (replicate n c) c' = (if c = c' then n else 0)"
  by (induction n) auto

lemma parse_loop_comments:
  "op_of_char c = None \<Longrightarrow> c \<noteq> CHR ''['' \<Longrightarrow> c \<noteq> CHR '']'' \<Longrightarrow>
   parse_loop (replicate n c) st = Inr st"
  by (induction n) (simp_all add: parse_char_comment)

lemma parse_loop_spaces [simp]: "parse_loop (replicate n CHR '' '') st = Inr st"
  by (rule parse_loop_comments) (simp_all add: op_of_char_def)

lemma parse_char_newline [simp]: "parse_char CHR ''\<newline>'' st = Inr st"
  by (rule parse_char_comment) (simp_all add: op_of_char_def)

lemma parse_loop_line:
  assumes "parse_loop r st = Inr st'"
  shows "parse_loop (replicate n CHR '' '' @ r @ ''\<newline>'') st = Inr st'"
  by (simp add: parse_loop_append assms)

lemma block_append_op_plain:
  assumes "ops b = [] \<or> \<not> mergeable (last (ops b)) op"
  shows "ops (block_append_op b op) = ops b @ [op]"
proof (cases "ops b" rule: rev_cases)
  case Nil
  then show ?thesis by (simp add: block_append_op_Nil)
next
  case (snoc xs x)
  with assms show ?thesis by (simp add: block_append_op_other)
qed

lemma word8_of_signed_count: "word_of_int (inc_signed_count v) = v"
proof -
  have "(word_of_int (uint v - 256) :: 8 word) = word_of_int (uint v) - 256" by simp
  then show ?thesis by (simp add: inc_signed_count_def Let_def)
qed

lemma word_of_nat_pos_neg:
  "(word_of_nat (nat c) - word_of_nat (nat (- c)) :: 'a :: len word) = word_of_int c"
  by (cases "0 \<le> c") simp_all

lemma shift_signed_count_mod:
  assumes "uint i < 3000"
  shows "shift_signed_count i mod 3000 = uint i"
proof (cases "uint i > 1500")
  case True
  then have "shift_signed_count i = uint i - 3000"
    by (simp add: shift_signed_count_def BF_MEMORY_SIZE_def Let_def)
  moreover have "(uint i - 3000) mod 3000 = uint i mod 3000"
    by (metis mod_diff_right_eq mod_self diff_zero)
  ultimately show ?thesis using assms by simp
next
  case False
  then have "shift_signed_count i = uint i"
    by (simp add: shift_signed_count_def BF_MEMORY_SIZE_def Let_def)
  with assms show ?thesis by simp
qed

lemma render_op:
  assumes k: "cur st < length (heap st)" and pre: "ops (heap st ! cur st) = pre"
    and wf: "ops_wf (pre @ [op])"
  shows "parse_loop (concat (op_calls op d TARGET_BF)) st = Inr (set_cur_ops st (pre @ [op]))"
proof -
  from wf have ok: "op_ok op" and adj: "pre = [] \<or> \<not> mergeable (last pre) op"
    by (simp_all add: ops_wf_snoc)
  show ?thesis
  proof (cases op)
    case (OpInc v)
    let ?p = "nat (inc_signed_count v)" and ?m = "nat (- inc_signed_count v)"
    let ?r = "replicate ?p CHR ''+'' @ replicate ?m CHR ''-''"
    have tx: "concat (op_calls (OpInc v) d TARGET_BF) = replicate (4 * d) CHR '' '' @ ?r @ ''\<newline>''"
      by (simp add: op_calls_def)
    from adj OpInc have base: "pre = [] \<or> op_tag (last pre) \<noteq> 0"
      by (auto simp: mergeable_def)
    have p0: "ops (heap st ! cur st) = pre @ (if (0 :: 8 word) = 0 then [] else [OpInc 0])"
      using pre by simp
    have cnt: "count_list ?r CHR ''+'' = ?p" "count_list ?r CHR ''-'' = ?m"
      by (simp_all add: count_list_replicate_eq)
    have v: "(0 :: 8 word) + (word_of_nat ?p - word_of_nat ?m) = v"
      by (simp only: word_of_nat_pos_neg word8_of_signed_count add_0)
    from ok OpInc have v0: "v \<noteq> 0" by simp
    have sub: "set ?r \<subseteq> {CHR ''+'', CHR ''-''}" by auto
    have "parse_loop ?r st = Inr (set_cur_ops st (pre @ [OpInc v]))"
      using inc_run [OF sub k p0 base] v0 unfolding cnt v by simp
    then show ?thesis
      unfolding OpInc tx by (rule parse_loop_line)
  next
    case (OpShift i)
    let ?p = "nat (shift_signed_count i)" and ?m = "nat (- shift_signed_count i)"
    let ?r = "replicate ?p CHR ''>'' @ replicate ?m CHR ''<''"
    have tx: "concat (op_calls (OpShift i) d TARGET_BF) = replicate (4 * d) CHR '' '' @ ?r @ ''\<newline>''"
      by (simp add: op_calls_def)
    from adj OpShift have base: "pre = [] \<or> op_tag (last pre) \<noteq> 1"
      by (auto simp: mergeable_def)
    have p0: "ops (heap st ! cur st) = pre @ (if (0 :: 16 word) = 0 then [] else [OpShift 0])"
      using pre by simp
    have cnt: "count_list ?r CHR ''>'' = ?p" "count_list ?r CHR ''<'' = ?m"
      by (simp_all add: count_list_replicate_eq)
    from ok OpShift have i0: "i \<noteq> 0" and i3: "uint i < 3000" by simp_all
    have "uint (0 :: 16 word) + int ?p - int ?m = shift_signed_count i" by simp
    then have v: "word_of_int ((uint (0 :: 16 word) + int ?p - int ?m) mod 3000) = i"
      by (simp only: shift_signed_count_mod [OF i3] word_of_int_uint)
    have sub: "set ?r \<subseteq> {CHR ''>'', CHR ''<''}" by auto
    have "parse_loop ?r st = Inr (set_cur_ops st (pre @ [OpShift i]))"
      using shift_run [OF sub k p0 base] i0 unfolding cnt v by simp
    then show ?thesis
      unfolding OpShift tx by (rule parse_loop_line)
  next
    case OpRead
    have tx: "concat (op_calls OpRead d TARGET_BF) = replicate (4 * d) CHR '' '' @ '','' @ ''\<newline>''"
      by (simp add: op_calls_def)
    have "op_of_char CHR '','' = Some OpRead" by (simp add: op_of_char_def)
    from parse_char_op [OF this, of st] block_append_op_plain [of "heap st ! cur st" OpRead]
    have "parse_char CHR '','' st = Inr (set_cur_ops st (pre @ [OpRead]))"
      by (simp add: pre)
    then have "parse_loop '','' st = Inr (set_cur_ops st (pre @ [OpRead]))" by simp
    then show ?thesis
      unfolding OpRead tx by (rule parse_loop_line)
  next
    case OpWrite
    have tx: "concat (op_calls OpWrite d TARGET_BF) = replicate (4 * d) CHR '' '' @ ''.'' @ ''\<newline>''"
      by (simp add: op_calls_def)
    have "op_of_char CHR ''.'' = Some OpWrite" by (simp add: op_of_char_def)
    from parse_char_op [OF this, of st] block_append_op_plain [of "heap st ! cur st" OpWrite]
    have "parse_char CHR ''.'' st = Inr (set_cur_ops st (pre @ [OpWrite]))"
      by (simp add: pre)
    then have "parse_loop ''.'' st = Inr (set_cur_ops st (pre @ [OpWrite]))" by simp
    then show ?thesis
      unfolding OpWrite tx by (rule parse_loop_line)
  qed
qed

lemma ops_wf_prefix: "ops_wf (xs @ ys) \<Longrightarrow> ops_wf xs"
  by (auto simp: ops_wf_def successively_append_iff)

lemma render_ops:
  assumes "cur st < length (heap st)" "ops (heap st ! cur st) = pre" "ops_wf (pre @ xs)"
  shows "parse_loop (concat (ops_calls xs d TARGET_BF)) st = Inr (set_cur_ops st (pre @ xs))"
  using assms
proof (induction xs arbitrary: pre st)
  case Nil
  then show ?case
    using set_cur_ops_same [of st] by (simp add: ops_calls_def)
next
  case (Cons x xs)
  from Cons.prems(3) have "ops_wf ((pre @ [x]) @ xs)" by simp
  then have wfx: "ops_wf (pre @ [x])" by (rule ops_wf_prefix)
  let ?st1 = "set_cur_ops st (pre @ [x])"
  have 1: "parse_loop (concat (op_calls x d TARGET_BF)) st = Inr ?st1"
    by (rule render_op [OF Cons.prems(1,2) wfx])
  have 2: "parse_loop (concat (ops_calls xs d TARGET_BF)) ?st1 = Inr (set_cur_ops ?st1 ((pre @ [x]) @ xs))"
    by (rule Cons.IH) (simp_all add: Cons.prems)
  have "concat (ops_calls (x # xs) d TARGET_BF)
          = concat (op_calls x d TARGET_BF) @ concat (ops_calls xs d TARGET_BF)"
    by (simp add: ops_calls_def)
  with 1 2 show ?case by (simp add: parse_loop_append)
qed

lemma render_cur_ops:
  assumes "pstate_wf st"
  shows "parse_loop (concat (ops_calls (ops (heap st ! cur st)) d TARGET_BF)) (set_cur_ops st [])
           = Inr st"
proof -
  from assms have k: "cur st < length (heap st)" and wf: "ops_wf (ops (heap st ! cur st))"
    by (auto simp: pstate_wf_def list_all_length)
  have "parse_loop (concat (ops_calls (ops (heap st ! cur st)) d TARGET_BF)) (set_cur_ops st [])
          = Inr (set_cur_ops (set_cur_ops st []) ([] @ ops (heap st ! cur st)))"
    by (rule render_ops) (simp_all add: k wf)
  then show ?thesis by (simp add: set_cur_ops_same [OF k])
qed

lemma parse_loop_bracket_line:
  assumes "parse_char c st = Inr st'"
  shows "parse_loop (replicate n CHR '' '' @ [c] @ ''\<newline>'') st = Inr st'"
  by (rule parse_loop_line) (simp add: assms)

lemma concat_head_calls_bf:
  "concat (head_calls p k d TARGET_BF) = replicate (4 * d) CHR '' '' @ ''['' @ ''\<newline>''"
  by (simp add: head_calls_def)

lemma concat_tail_calls_bf:
  "concat (tail_calls p k d TARGET_BF) = replicate (4 * (d - 1)) CHR '' '' @ '']'' @ ''\<newline>''"
  by (simp add: tail_calls_def)

lemma reparse_script:
  "pstate_wf st \<Longrightarrow> parse_loop src st = Inr stF \<Longrightarrow>
   parse_loop (concat (script p TARGET_BF src st)) (set_cur_ops st []) = Inr stF"
proof (induction src arbitrary: st)
  case Nil
  then show ?case by (simp add: render_cur_ops)
next
  case (Cons c cs)
  from Cons.prems(2) obtain st1 where step: "parse_char c st = Inr st1"
    and rest: "parse_loop cs st1 = Inr stF"
    by (auto split: sum.splits)
  from pstate_wf_parse_char [OF Cons.prems(1) step] have wf1: "pstate_wf st1" .
  note IH = Cons.IH [OF wf1 rest]
  let ?d = "length (unclosed st)"
  let ?ops = "concat (ops_calls (ops (heap st ! cur st)) ?d TARGET_BF)"
  have ops: "parse_loop ?ops (set_cur_ops st []) = Inr st"
    by (rule render_cur_ops [OF Cons.prems(1)])
  show ?case
  proof (cases "op_of_char c")
    case (Some op)
    from step parse_char_op [OF Some, of st]
    have st1: "st1 = set_cur_ops st (ops (block_append_op (heap st ! cur st) op))" by simp
    from Some have c: "c \<noteq> CHR ''[''" "c \<noteq> CHR '']''" by auto
    have sc: "script p TARGET_BF (c # cs) st = script p TARGET_BF cs st1"
      using step c by simp
    have "set_cur_ops st1 [] = set_cur_ops st []" by (simp add: st1)
    with IH show ?thesis unfolding sc by simp
  next
    case None
    consider (brk) "c = CHR ''['' \<or> c = CHR '']''" | (other) "c \<noteq> CHR ''[''" "c \<noteq> CHR '']''"
      by blast
    then show ?thesis
    proof cases
      case other
      with None step have e: "st1 = st" by (simp add: parse_char_comment)
      have sc: "script p TARGET_BF (c # cs) st = script p TARGET_BF cs st1"
        using step other by simp
      from IH show ?thesis unfolding sc e .
    next
      case brk
      have new: "cur st1 < length (heap st1)" "ops (heap st1 ! cur st1) = []"
        using brk step
        by (auto simp: parse_char_def Let_def empty_block_def nth_append split: list.splits)
      from set_cur_ops_same [OF new(1)] new(2) have e: "set_cur_ops st1 [] = st1" by simp
      have sc: "script p TARGET_BF (c # cs) st
          = ops_calls (ops (heap st ! cur st)) ?d TARGET_BF
            @ (if c = CHR ''['' then head_calls p (cur st1) ?d TARGET_BF
               else tail_calls p (hd (unclosed st)) ?d TARGET_BF)
            @ script p TARGET_BF cs st1"
        using step brk by auto
      have line: "parse_loop (concat (if c = CHR ''['' then head_calls p (cur st1) ?d TARGET_BF
               else tail_calls p (hd (unclosed st)) ?d TARGET_BF)) st = Inr st1"
        using brk parse_loop_bracket_line [OF step]
        by (auto simp: concat_head_calls_bf concat_tail_calls_bf)
      from IH have "parse_loop (concat (script p TARGET_BF cs st1)) st1 = Inr stF"
        unfolding e .
      with ops line show ?thesis
        unfolding sc by (simp add: parse_loop_append)
    qed
  qed
qed

text \<open>
  C2: for every source text that \<^verbatim>\<open>parse\<close> accepts (with or without comment characters),
  the normalized-source target writes, into an empty file that accepts every write, a
  text from which \<^verbatim>\<open>parse\<close> builds the same program again: the same blocks, each with
  the same operations and the same \<^verbatim>\<open>next\<close> and \<^verbatim>\<open>exit\<close>.
\<close>

theorem C2_round_trip:
  assumes "parse src = Inr hp"
  shows "\<exists>w fl. emit_code fmt_p hp 0 TARGET_BF fresh_file = Some (Done, w, fl)
                \<and> parse (written fl) = Inr hp"
proof -
  from assms obtain stF where loop: "parse_loop src parse_init = Inr stF"
    and u: "unclosed stF = []" and hp: "hp = heap stF"
    by (auto simp: parse_Inr_iff)
  let ?fl = "wrote (program_calls fmt_p TARGET_BF src) fresh_file"
  have e: "emit_code fmt_p hp 0 TARGET_BF fresh_file = Some (Done, final_walk (length hp), ?fl)"
    by (rule emit_code_reliable [OF _ assms]) simp_all
  have "written ?fl = concat (script fmt_p TARGET_BF src parse_init)"
    by (simp add: wrote_def program_calls_def file_head_calls_def file_tail_calls_def
        fresh_file_def)
  moreover have "set_cur_ops parse_init [] = parse_init"
    by (simp add: set_cur_ops_def parse_init_def empty_block_def)
  ultimately have "parse_loop (written ?fl) parse_init = Inr stF"
    using reparse_script [OF pstate_wf_init loop, of fmt_p] by simp
  with u hp have "parse (written ?fl) = Inr hp" by (simp add: parse_def)
  with e show ?thesis by blast
qed

theorem C2_round_trip_witness:
  "parse ''+ +[ >-, ]<.'' =
     Inr [\<lparr>next = Some 1, exit = None, ops = [OpInc 2]\<rparr>,
          \<lparr>next = None, exit = Some 2, ops = [OpShift 1, OpInc 255, OpRead]\<rparr>,
          \<lparr>next = None, exit = None, ops = [OpShift 2999, OpWrite]\<rparr>]
   \<and> (\<exists>w fl. emit_code (\<lambda>i. [])
          [\<lparr>next = Some 1, exit = None, ops = [OpInc 2]\<rparr>,
           \<lparr>next = None, exit = Some 2, ops = [OpShift 1, OpInc 255, OpRead]\<rparr>,
           \<lparr>next = None, exit = None, ops = [OpShift 2999, OpWrite]\<rparr>] 0 TARGET_BF fresh_file
          = Some (Done, w, fl)
        \<and> parse (written fl) =
            Inr [\<lparr>next = Some 1, exit = None, ops = [OpInc 2]\<rparr>,
                 \<lparr>next = None, exit = Some 2, ops = [OpShift 1, OpInc 255, OpRead]\<rparr>,
                 \<lparr>next = None, exit = None, ops = [OpShift 2999, OpWrite]\<rparr>])
   \<and> parse ''++\<newline>[\<newline>    >\<newline>    -\<newline>    ,\<newline>]\<newline><\<newline>.\<newline>'' = parse ''+ +[ >-, ]<.''"
proof -
  have p: "parse ''+ +[ >-, ]<.'' =
     Inr [\<lparr>next = Some 1, exit = None, ops = [OpInc 2]\<rparr>,
          \<lparr>next = None, exit = Some 2, ops = [OpShift 1, OpInc 255, OpRead]\<rparr>,
          \<lparr>next = None, exit = None, ops = [OpShift 2999, OpWrite]\<rparr>]"
    by code_simp
  have q: "parse ''++\<newline>[\<newline>    >\<newline>    -\<newline>    ,\<newline>]\<newline><\<newline>.\<newline>'' = parse ''+ +[ >-, ]<.''"
    by code_simp
  from C2_round_trip [OF p, of "\<lambda>i. []"] p q show ?thesis
    by (intro conjI)
qed

end
